theory Spec2Isabelle
  imports Main "HOL-Library.Char_ord" "HOL-Library.List_Lexorder" "HOL-Library.Sublist"
    "HOL-Library.Multiset"
begin

section \<open>Data model of \<open>corpusbuilder/news_crawler.py\<close>\<close>

text \<open>
  URLs are Python strings; a HOL string stands for the Python string with the same code
  points, so strings compare as in Python. A date is a \<open>datetime.date\<close>, represented by
  its proleptic Gregorian ordinal (\<open>date.toordinal()\<close>): dates compare as their ordinals
  do, and \<open>date + timedelta(days=k)\<close> is the date with ordinal \<open>+ k\<close>.
\<close>

type_synonym url = string
type_synonym date = int

text \<open>The keys of the \<open>settings\<close> dictionary that the two crawler classes read.\<close>

record settings =
  archive_page_urls_by_date :: bool
  archive_page_urls_by_id :: bool
  date_from :: date
  date_until :: date
  archive_url_format :: string
  go_reverse_in_archive :: bool
  min_pagenum :: int
  max_pagenum :: "int option"
  next_url_by_regex :: bool
  next_url_by_pagenum :: bool
  same_article_url_threshold :: int
  create_corpus :: bool

text \<open>
  The collaborators are imported from modules that are not part of the file
  (\<open>corpus_converter\<close>, \<open>enhanced_downloader\<close>, \<open>utils\<close>), so they are parameters.
  \<open>'h\<close> is the type of raw HTML, \<open>'w\<close> is everything a download can depend on and change
  (network, cache, rate limiter): \<open>download_url\<close> takes the current \<open>'w\<close> and returns the
  page, or \<open>None\<close> on failure, with the next \<open>'w\<close>. The three extractors are module-level
  functions of the HTML and the settings. \<open>set_order\<close> is the order in which Python
  iterates over a set, which the language leaves open.
\<close>

record ('w, 'h) env =
  settings :: settings
  archive_download_url :: "'w \<Rightarrow> url \<Rightarrow> 'h option \<times> 'w"
  article_download_url :: "'w \<Rightarrow> url \<Rightarrow> 'h option \<times> 'w"
  extract_article_urls_from_page :: "'h \<Rightarrow> settings \<Rightarrow> url list"
  extract_next_page_url :: "'h \<Rightarrow> settings \<Rightarrow> url option"
  extract_article_date :: "'h \<Rightarrow> settings \<Rightarrow> date option"
  set_order :: "url set \<Rightarrow> url list"

datatype level = INFO | WARNING | ERROR

datatype message =
    AlreadyDownloaded
  | DownloadFailed
  | DateNotInInterval "date option"
  | TrueNewUrl

text \<open>
  The mutable state of a \<open>NewsArticleCrawler\<close> and of the \<open>NewsArchiveCrawler\<close> it owns
  (\<open>good_urls\<close>, \<open>problematic_urls\<close>, \<open>known_article_urls\<close>). The effects on the
  collaborators are kept as traces: the URLs passed to each downloader, the calls of
  \<open>article_to_corpus\<close>, and the records sent to the article logger.
\<close>

record ('w, 'h) crawler =
  good_urls :: "url set"
  problematic_urls :: "url set"
  known_article_urls :: "url set"
  good_article_urls :: "url set"
  problematic_article_urls :: "url set"
  new_urls :: "url set"
  world :: 'w
  archive_fetches :: "url list"
  article_fetches :: "url list"
  corpus :: "(url \<times> 'h) list"
  logged :: "(level \<times> url \<times> message) list"

section \<open>\<open>NewsArticleCrawler.process_urls\<close>\<close>

text \<open>Lines 224-229: the check made for one extracted URL.\<close>

definition admit_new :: "('w, 'h) crawler \<Rightarrow> url \<Rightarrow> ('w, 'h) crawler" where
  "admit_new st extracted_url =
     (if extracted_url \<notin> good_article_urls st \<and>
         extracted_url \<notin> problematic_article_urls st \<and>
         extracted_url \<notin> good_urls st \<and>
         extracted_url \<notin> problematic_urls st \<and>
         extracted_url \<notin> known_article_urls st
      then st\<lparr>new_urls := insert extracted_url (new_urls st)\<rparr>
      else st)"

definition article_date_is_ok :: "settings \<Rightarrow> date option \<Rightarrow> bool" where
  "article_date_is_ok s article_date =
     (case article_date of
        None \<Rightarrow> False
      | Some d \<Rightarrow> date_from s \<le> d \<and> d \<le> date_until s)"

text \<open>Lines 188-229: the body of the loop \<open>for url in it\<close>.\<close>

definition process_url :: "('w, 'h) env \<Rightarrow> ('w, 'h) crawler \<Rightarrow> url \<Rightarrow> ('w, 'h) crawler" where
  "process_url env st url =
     (if url \<in> good_article_urls st \<or> url \<in> problematic_article_urls st
      then st\<lparr>logged := logged st @ [(WARNING, url, AlreadyDownloaded)]\<rparr>
      else
        let res = article_download_url env (world st) url;
            st1 = st\<lparr>world := snd res, article_fetches := article_fetches st @ [url]\<rparr>
        in case fst res of
             None \<Rightarrow>
               st1\<lparr>logged := logged st1 @ [(ERROR, url, DownloadFailed)],
                   problematic_article_urls := insert url (problematic_article_urls st1)\<rparr>
           | Some article_raw_html \<Rightarrow>
               let st2 = st1\<lparr>good_article_urls := insert url (good_article_urls st1)\<rparr>;
                   article_date = extract_article_date env article_raw_html (settings env);
                   date_ok = article_date_is_ok (settings env) article_date;
                   st3 = (if \<not> date_ok
                          then st2\<lparr>logged := logged st2 @
                                 [(WARNING, url, DateNotInInterval article_date)]\<rparr>
                          else st2);
                   st4 = (if date_ok \<and> create_corpus (settings env)
                          then st3\<lparr>corpus := corpus st3 @ [(url, article_raw_html)]\<rparr>
                          else st3);
                   extracted_article_urls =
                     extract_article_urls_from_page env article_raw_html (settings env)
               in foldl admit_new st4 extracted_article_urls)"

text \<open>\<open>process_urls\<close> on a finite collection, given in the order of iteration.\<close>

definition process_urls ::
  "('w, 'h) env \<Rightarrow> ('w, 'h) crawler \<Rightarrow> url list \<Rightarrow> ('w, 'h) crawler" where
  "process_urls env st it = foldl (process_url env) st it"

section \<open>\<open>NewsArchiveCrawler\<close>: pagination\<close>

text \<open>\<open>str\<close> of a Python integer, as \<open>'{0}{1}'.format\<close> prints the page number.\<close>

fun digits :: "nat \<Rightarrow> string" where
  "digits n = (if n < 10 then [''0123456789'' ! n]
               else digits (n div 10) @ [''0123456789'' ! (n mod 10)])"

declare digits.simps [simp del]

definition str_int :: "int \<Rightarrow> string" where
  "str_int i = (if i < 0 then CHR ''-'' # digits (nat (- i)) else digits (nat i))"

text \<open>Lines 130-141: \<open>_extract_next_page_url\<close>.\<close>

definition crawler_extract_next_page_url ::
  "('w, 'h) env \<Rightarrow> ('w, 'h) crawler \<Rightarrow> 'h \<Rightarrow> url \<Rightarrow> url list \<Rightarrow> int \<Rightarrow> int option \<Rightarrow>
     bool \<Rightarrow> bool \<Rightarrow> int \<Rightarrow> url option" where
  "crawler_extract_next_page_url env st archive_page_raw_html archive_page_url_base
       article_urls page_num max_pagenum' use_regex use_pagenum same_article_url_threshold' =
     (if use_regex
      then extract_next_page_url env archive_page_raw_html (settings env)
      else if use_pagenum \<and> length article_urls > 0 \<and>
              (card (known_article_urls st) = 0 \<or>
               int (card (known_article_urls st \<inter> set article_urls))
                 > same_article_url_threshold') \<and>
              (case max_pagenum' of None \<Rightarrow> True | Some m \<Rightarrow> page_num < m)
      then Some (archive_page_url_base @ str_int page_num)
      else None)"

text \<open>
  Lines 107-119: one round of the \<open>while\<close> loop, up to the \<open>yield from\<close>. It returns the
  state, the article URLs about to be yielded and the next page URL.
\<close>

definition archive_page_step ::
  "('w, 'h) env \<Rightarrow> url \<Rightarrow> ('w, 'h) crawler \<Rightarrow> url \<Rightarrow> int \<Rightarrow>
     ('w, 'h) crawler \<times> url list \<times> url option" where
  "archive_page_step env archive_page_url_base st archive_page_next_page_url page_num =
     (let res = archive_download_url env (world st) archive_page_next_page_url;
          st1 = st\<lparr>world := snd res,
                   archive_fetches := archive_fetches st @ [archive_page_next_page_url]\<rparr>
      in case fst res of
           Some archive_page_raw_html \<Rightarrow>
             let st2 = st1\<lparr>good_urls := insert archive_page_next_page_url (good_urls st1)\<rparr>;
                 article_urls =
                   extract_article_urls_from_page env archive_page_raw_html (settings env)
             in (st2, article_urls,
                 crawler_extract_next_page_url env st2 archive_page_raw_html
                   archive_page_url_base article_urls page_num
                   (max_pagenum (settings env)) (next_url_by_regex (settings env))
                   (next_url_by_pagenum (settings env))
                   (same_article_url_threshold (settings env)))
         | None \<Rightarrow>
             (st1\<lparr>problematic_urls :=
                    insert archive_page_next_page_url (problematic_urls st1)\<rparr>, [], None))"

text \<open>
  The generator \<open>_gen_article_urls_from_archive_page_url_including_subpages\<close> together
  with its consumer: every URL it yields is handed to \<open>consume\<close> (the body of the
  consumer's \<open>for\<close> loop) before the generator goes on to the next page. The loop has no
  bound of its own, so the result is \<open>None\<close> when it runs forever.
\<close>

partial_function (option) gen_article_urls ::
  "('w, 'h) env \<Rightarrow> (('w, 'h) crawler \<Rightarrow> url \<Rightarrow> ('w, 'h) crawler) \<Rightarrow> url \<Rightarrow>
     ('w, 'h) crawler \<Rightarrow> url \<Rightarrow> int \<Rightarrow> ('w, 'h) crawler option" where
  "gen_article_urls env consume archive_page_url_base st archive_page_next_page_url page_num =
     (let r = archive_page_step env archive_page_url_base st archive_page_next_page_url page_num;
          st' = foldl consume (fst r) (fst (snd r))
      in case snd (snd r) of
           None \<Rightarrow> Some st'
         | Some next_url \<Rightarrow>
             gen_article_urls env consume archive_page_url_base st' next_url (page_num + 1))"

declare gen_article_urls.simps [code]

text \<open>
  The same loop stopped after at most \<open>k\<close> rounds: the state, the next page URL and the
  page number that the test of the \<open>while\<close> condition finds after \<open>k\<close> rounds, or those
  the loop ended with when it ended earlier.
\<close>

fun gen_article_urls_rounds ::
  "nat \<Rightarrow> ('w, 'h) env \<Rightarrow> (('w, 'h) crawler \<Rightarrow> url \<Rightarrow> ('w, 'h) crawler) \<Rightarrow> url \<Rightarrow>
     ('w, 'h) crawler \<Rightarrow> url option \<Rightarrow> int \<Rightarrow> ('w, 'h) crawler \<times> url option \<times> int" where
  "gen_article_urls_rounds 0 env consume archive_page_url_base st
       archive_page_next_page_url page_num = (st, archive_page_next_page_url, page_num)"
| "gen_article_urls_rounds (Suc k) env consume archive_page_url_base st
       archive_page_next_page_url page_num =
     (case archive_page_next_page_url of
        None \<Rightarrow> (st, None, page_num)
      | Some next_url \<Rightarrow>
          let r = archive_page_step env archive_page_url_base st next_url page_num;
              st' = foldl consume (fst r) (fst (snd r))
          in gen_article_urls_rounds k env consume archive_page_url_base st' (snd (snd r))
               (page_num + 1))"

definition gen_article_urls_from_archive_page_url_including_subpages ::
  "('w, 'h) env \<Rightarrow> (('w, 'h) crawler \<Rightarrow> url \<Rightarrow> ('w, 'h) crawler) \<Rightarrow> ('w, 'h) crawler \<Rightarrow>
     url \<Rightarrow> ('w, 'h) crawler option" where
  "gen_article_urls_from_archive_page_url_including_subpages env consume st
       archive_page_url_base =
     gen_article_urls env consume archive_page_url_base st archive_page_url_base
       (min_pagenum (settings env))"


section \<open>\<open>NewsArchiveCrawler.url_iterator\<close>\<close>

text \<open>
  The fields of a \<open>datetime.date\<close>, computed from the ordinal as \<open>date.fromordinal\<close>
  does (CPython's \<open>_ord2ymd\<close>).
\<close>

definition DAYS_IN_MONTH :: "int list" where
  "DAYS_IN_MONTH = [- 1, 31, 28, 31, 30, 31, 30, 31, 31, 30, 31, 30, 31]"

definition DAYS_BEFORE_MONTH :: "int list" where
  "DAYS_BEFORE_MONTH = [- 1, 0, 31, 59, 90, 120, 151, 181, 212, 243, 273, 304, 334]"

definition ord2ymd :: "int \<Rightarrow> int \<times> int \<times> int" where
  "ord2ymd n0 =
     (let n = n0 - 1;
          n400 = n div 146097; n = n mod 146097;
          year = n400 * 400 + 1;
          n100 = n div 36524; n = n mod 36524;
          n4 = n div 1461; n = n mod 1461;
          n1 = n div 365; n = n mod 365;
          year = year + n100 * 100 + n4 * 4 + n1
      in if n1 = 4 \<or> n100 = 4 then (year - 1, 12, 31)
         else
           let leapyear = (n1 = 3 \<and> (n4 \<noteq> 24 \<or> n100 = 3));
               month = (n + 50) div 32;
               preceding = DAYS_BEFORE_MONTH ! nat month +
                           (if month > 2 \<and> leapyear then 1 else 0)
           in if preceding > n
              then let month' = month - 1;
                       preceding' = preceding -
                         (DAYS_IN_MONTH ! nat month' +
                          (if month' = 2 \<and> leapyear then 1 else 0))
                   in (year, month', n - preceding' + 1)
              else (year, month, n - preceding + 1))"

definition year :: "date \<Rightarrow> int" where "year d = fst (ord2ymd d)"
definition month :: "date \<Rightarrow> int" where "month d = fst (snd (ord2ymd d))"
definition day :: "date \<Rightarrow> int" where "day d = snd (snd (ord2ymd d))"

text \<open>\<open>'{0:0wd}'.format(i)\<close>: decimal, padded with zeros to width \<open>w\<close>, sign first.\<close>

definition format_0d :: "nat \<Rightarrow> int \<Rightarrow> string" where
  "format_0d w i =
     (if i < 0
      then CHR ''-'' # replicate (w - 1 - length (digits (nat (- i)))) CHR ''0''
             @ digits (nat (- i))
      else replicate (w - length (digits (nat i))) CHR ''0'' @ digits (nat i))"

text \<open>\<open>s.replace(old, new)\<close>: every occurrence of \<open>old\<close>, found from the left.\<close>

function replace :: "string \<Rightarrow> string \<Rightarrow> string \<Rightarrow> string" where
  "replace old new [] = (if old = [] then new else [])"
| "replace old new (c # cs) =
     (if old = [] then new @ c # replace old new cs
      else if prefix old (c # cs) then new @ replace old new (drop (length old) (c # cs))
      else c # replace old new cs)"
  by pat_completeness auto
termination
  by (relation "measure (\<lambda>(old, new, s). length s)") auto

text \<open>Lines 85-93.\<close>

definition gen_archive_page_url_from_date :: "date \<Rightarrow> string \<Rightarrow> url" where
  "gen_archive_page_url_from_date curr_date url_format =
     replace ''#day'' (format_0d 2 (day curr_date))
       (replace ''#month'' (format_0d 2 (month curr_date))
          (replace ''#year'' (format_0d 4 (year curr_date)) url_format))"

text \<open>
  \<open>xs.sort(reverse=r)\<close>. A reversed sort keeps equal elements in their original order.
\<close>

definition sort_list :: "bool \<Rightarrow> string list \<Rightarrow> string list" where
  "sort_list r xs = (if r then rev (sort (rev xs)) else sort xs)"

text \<open>
  Lines 61-70, the list built in date mode. \<open>list(set(...))\<close> holds the distinct
  generated URLs in an order Python does not fix; \<open>remdups\<close> is one such order, and the
  sort that follows gives the same list for each of them (lemma \<open>sort_list_order\<close>).
\<close>

definition archive_page_urls_of_dates :: "settings \<Rightarrow> url list" where
  "archive_page_urls_of_dates s =
     sort_list (go_reverse_in_archive s)
       (remdups (map (\<lambda>curr_day. gen_archive_page_url_from_date
                        (date_from s + int curr_day) (archive_url_format s))
                   [0 ..< nat (date_until s - date_from s + 1)]))"

text \<open>Lines 58-74: the list \<open>archive_page_urls\<close> when the check of line 76 is reached.\<close>

definition archive_page_urls :: "settings \<Rightarrow> url list" where
  "archive_page_urls s =
     (let urls = (if archive_page_urls_by_date s then archive_page_urls_of_dates s else [])
      in if archive_page_urls_by_id s \<and> length urls = 0
         then urls @ [archive_url_format s]
         else urls)"

datatype error = ValueError | TypeError | FileNotFoundError

text \<open>Lines 80-81: the archive URLs are walked one after the other.\<close>

fun for_archive_page_urls ::
  "('w, 'h) env \<Rightarrow> (('w, 'h) crawler \<Rightarrow> url \<Rightarrow> ('w, 'h) crawler) \<Rightarrow> ('w, 'h) crawler \<Rightarrow>
     url list \<Rightarrow> ('w, 'h) crawler option" where
  "for_archive_page_urls env consume st [] = Some st"
| "for_archive_page_urls env consume st (archive_page_url # rest) =
     (case gen_article_urls_from_archive_page_url_including_subpages env consume st
             archive_page_url of
        None \<Rightarrow> None
      | Some st' \<Rightarrow> for_archive_page_urls env consume st' rest)"

text \<open>
  \<open>url_iterator\<close> with its consumer. A raised exception is \<open>Inl\<close>, with the state the
  objects are left in; \<open>None\<close> is a run that does not end.
\<close>

definition url_iterator ::
  "('w, 'h) env \<Rightarrow> (('w, 'h) crawler \<Rightarrow> url \<Rightarrow> ('w, 'h) crawler) \<Rightarrow> ('w, 'h) crawler \<Rightarrow>
     (error \<times> ('w, 'h) crawler + ('w, 'h) crawler) option" where
  "url_iterator env consume st =
     (let urls = archive_page_urls (settings env)
      in if length urls = 0 then Some (Inl (ValueError, st))
         else map_option Inr (for_archive_page_urls env consume st urls))"

section \<open>\<open>NewsArticleCrawler\<close>: the gathered new URLs\<close>

text \<open>Lines 237-242.\<close>

definition recheck_new_urls :: "('w, 'h) crawler \<Rightarrow> ('w, 'h) crawler" where
  "recheck_new_urls st =
     st\<lparr>new_urls := Set.filter
          (\<lambda>url. url \<notin> good_article_urls st \<and>
                 url \<notin> problematic_article_urls st \<and>
                 url \<notin> good_urls st \<and>
                 url \<notin> problematic_urls st \<and>
                 url \<notin> known_article_urls st)
          (new_urls st)\<rparr>"

text \<open>Lines 244-246: logging, then the swap \<open>new_urls, self._new_urls = self._new_urls, set()\<close>.\<close>

definition take_new_urls :: "('w, 'h) env \<Rightarrow> ('w, 'h) crawler \<Rightarrow> ('w, 'h) crawler" where
  "take_new_urls env st =
     st\<lparr>logged := logged st @ map (\<lambda>url. (ERROR, url, TrueNewUrl)) (set_order env (new_urls st)),
        new_urls := {}\<rparr>"

text \<open>Lines 243-247: the \<open>while\<close> loop.\<close>

partial_function (option) while_new_urls ::
  "('w, 'h) env \<Rightarrow> ('w, 'h) crawler \<Rightarrow> ('w, 'h) crawler option" where
  "while_new_urls env st =
     (if new_urls st \<noteq> {}
      then while_new_urls env
             (process_urls env (take_new_urls env st) (set_order env (new_urls st)))
      else Some st)"

declare while_new_urls.simps [code]

definition download_gathered_new_urls ::
  "('w, 'h) env \<Rightarrow> ('w, 'h) crawler \<Rightarrow> ('w, 'h) crawler option" where
  "download_gathered_new_urls env st = while_new_urls env (recheck_new_urls st)"

text \<open>Lines 231-233.\<close>

definition download_and_extract_all_articles ::
  "('w, 'h) env \<Rightarrow> ('w, 'h) crawler \<Rightarrow>
     (error \<times> ('w, 'h) crawler + ('w, 'h) crawler) option" where
  "download_and_extract_all_articles env st =
     (case url_iterator env (process_url env) st of
        None \<Rightarrow> None
      | Some (Inl e) \<Rightarrow> Some (Inl e)
      | Some (Inr st1) \<Rightarrow> map_option Inr (download_gathered_new_urls env st1))"


section \<open>Construction\<close>

text \<open>
  \<open>str.strip()\<close> removes white space from both ends. A character of a HOL string stands
  for the Python character with the same code point, \<open>U+0000\<close> to \<open>U+00FF\<close>; the
  characters below are those of them for which \<open>str.isspace\<close> holds: tab to carriage
  return, the four separators \<open>U+001C\<close> to \<open>U+001F\<close>, the space, next line \<open>U+0085\<close>
  and the no-break space \<open>U+00A0\<close>.
\<close>

definition is_space :: "char \<Rightarrow> bool" where
  "is_space c = (c \<in> set [CHR 0x09, CHR 0x0A, CHR 0x0B, CHR 0x0C, CHR 0x0D,
                          CHR 0x1C, CHR 0x1D, CHR 0x1E, CHR 0x1F, CHR 0x20,
                          CHR 0x85, CHR 0xA0])"

definition strip :: "string \<Rightarrow> string" where
  "strip s = rev (dropWhile is_space (rev (dropWhile is_space s)))"

text \<open>
  \<open>open(name, encoding='UTF-8')\<close> and the iteration over the file: the file system maps a
  name to the lines of the file, each with its line end. \<open>open(None)\<close> raises \<open>TypeError\<close>.
\<close>

definition open_lines :: "(string \<rightharpoonup> string list) \<Rightarrow> string option \<Rightarrow> error + string list" where
  "open_lines fs name =
     (case name of
        None \<Rightarrow> Inl TypeError
      | Some f \<Rightarrow> (case fs f of None \<Rightarrow> Inl FileNotFoundError | Some ls \<Rightarrow> Inr ls))"

text \<open>
  Lines 27-34 of \<open>NewsArchiveCrawler.__init__\<close>: the sets \<open>good_urls\<close>,
  \<open>problematic_urls\<close> and \<open>known_article_urls\<close> of the new object.
\<close>

definition NewsArchiveCrawler_init ::
  "(string \<rightharpoonup> string list) \<Rightarrow> 'a option \<Rightarrow> string option \<Rightarrow>
     error + url set \<times> url set \<times> url set" where
  "NewsArchiveCrawler_init fs known_article_urls' known_bad_urls =
     (case known_article_urls' of
        Some _ \<Rightarrow>
          (case open_lines fs known_bad_urls of
             Inl e \<Rightarrow> Inl e
           | Inr fh \<Rightarrow> Inr ({}, {}, {strip line | line. line \<in> set fh}))
      | None \<Rightarrow> Inr ({}, {}, {}))"

text \<open>
  Lines 159-161 and 175-178 of \<open>NewsArticleCrawler.__init__\<close>; \<open>w\<close> is the state of the
  downloaders' world at that time.
\<close>

definition NewsArticleCrawler_init ::
  "(string \<rightharpoonup> string list) \<Rightarrow> 'w \<Rightarrow> 'a option \<Rightarrow> string option \<Rightarrow> error + ('w, 'h) crawler" where
  "NewsArticleCrawler_init fs w known_article_urls' known_bad_urls =
     (case NewsArchiveCrawler_init fs known_article_urls' known_bad_urls of
        Inl e \<Rightarrow> Inl e
      | Inr (g, p, k) \<Rightarrow>
          Inr \<lparr>good_urls = g, problematic_urls = p, known_article_urls = k,
               good_article_urls = {}, problematic_article_urls = {}, new_urls = {},
               world = w, archive_fetches = [], article_fetches = [], corpus = [],
               logged = []\<rparr>)"

section \<open>The drain loop in the words of the specification\<close>

text \<open>
  The drain loop as the specification words it, to be compared with
  \<open>download_gathered_new_urls\<close>: until \<open>new_urls\<close> is empty at the start of a round, take a
  snapshot of \<open>new_urls\<close> and clear it, filter the snapshot against the five sets, and
  process the URLs that remain. The record \<open>TRUE NEW URL\<close> is logged for the URLs that
  remain.
\<close>

partial_function (option) drain_as_specified ::
  "('w, 'h) env \<Rightarrow> ('w, 'h) crawler \<Rightarrow> ('w, 'h) crawler option" where
  "drain_as_specified env st =
     (if new_urls st = {} then Some st
      else
        let snapshot = new_urls st;
            st1 = st\<lparr>new_urls := {}\<rparr>;
            surviving = Set.filter
              (\<lambda>url. url \<notin> good_article_urls st1 \<and> url \<notin> problematic_article_urls st1 \<and>
                     url \<notin> good_urls st1 \<and> url \<notin> problematic_urls st1 \<and>
                     url \<notin> known_article_urls st1) snapshot;
            st2 = st1\<lparr>logged := logged st1 @
                    map (\<lambda>url. (ERROR, url, TrueNewUrl)) (set_order env surviving)\<rparr>
        in drain_as_specified env (process_urls env st2 (set_order env surviving)))"

declare drain_as_specified.simps [code]

section \<open>Auxiliary notions\<close>

text \<open>A URL that is in none of the five sets consulted in lines 224-228 and 238-242.\<close>

definition unclassified :: "('w, 'h) crawler \<Rightarrow> url \<Rightarrow> bool" where
  "unclassified st u \<longleftrightarrow>
     u \<notin> good_article_urls st \<and> u \<notin> problematic_article_urls st \<and>
     u \<notin> good_urls st \<and> u \<notin> problematic_urls st \<and> u \<notin> known_article_urls st"

text \<open>No new URL is a known article URL, the known article URLs being \<open>K\<close>.\<close>

definition new_apart_from_known :: "url set \<Rightarrow> ('w, 'h) crawler \<Rightarrow> bool" where
  "new_apart_from_known K s \<longleftrightarrow> known_article_urls s = K \<and> new_urls s \<inter> K = {}"

text \<open>
  The archive sets hold downloaded page URLs only, and are disjoint as long as no page URL
  was downloaded twice.
\<close>

definition archive_sets_fetched :: "('w, 'h) crawler \<Rightarrow> bool" where
  "archive_sets_fetched s \<longleftrightarrow>
     good_urls s \<union> problematic_urls s \<subseteq> set (archive_fetches s) \<and>
     (distinct (archive_fetches s) \<longrightarrow> good_urls s \<inter> problematic_urls s = {})"

text \<open>The archive sets follow a predicate \<open>ok\<close> on URLs.\<close>

definition archive_sets_by :: "(url \<Rightarrow> bool) \<Rightarrow> ('w, 'h) crawler \<Rightarrow> bool" where
  "archive_sets_by ok s \<longleftrightarrow> good_urls s \<subseteq> Collect ok \<and> problematic_urls s \<inter> Collect ok = {}"

text \<open>No new URL is an archive URL or a known article URL.\<close>

definition new_apart_from_archive :: "('w, 'h) crawler \<Rightarrow> bool" where
  "new_apart_from_archive s \<longleftrightarrow>
     new_urls s \<inter> (good_urls s \<union> problematic_urls s \<union> known_article_urls s) = {}"

text \<open>
  A template seen as a sequence of pieces: plain text and the three placeholders. It is
  written out with the placeholders as they stand, or with three given strings in their
  places.
\<close>

datatype piece = Text string | Year | Month | Day

definition render :: "string \<Rightarrow> string \<Rightarrow> string \<Rightarrow> piece list \<Rightarrow> string" where
  "render y m d ps =
     concat (map (\<lambda>p. case p of Text s \<Rightarrow> s | Year \<Rightarrow> y | Month \<Rightarrow> m | Day \<Rightarrow> d) ps)"

definition template :: "piece list \<Rightarrow> string" where
  "template ps = render ''#year'' ''#month'' ''#day'' ps"

text \<open>The number that a string of decimal digits denotes.\<close>

definition decimal :: "string \<Rightarrow> nat" where
  "decimal s = foldl (\<lambda>a c. 10 * a + (of_char c - 48)) 0 s"

section \<open>Example sites\<close>

text \<open>
  A crawler right after construction with no known article URLs, and a small site:
  the archive page \<open>A\<close> lists the article \<open>x\<close> and has a next page \<open>B\<close>, which lists
  nothing; \<open>x\<close> carries no date and links to \<open>B\<close>, \<open>a\<close> and \<open>b\<close>; \<open>a\<close> and \<open>b\<close> link to
  each other. The HTML of a page is its URL, the world counts the downloads.
\<close>

definition fresh :: "(nat, string) crawler" where
  "fresh = \<lparr>good_urls = {}, problematic_urls = {}, known_article_urls = {},
            good_article_urls = {}, problematic_article_urls = {}, new_urls = {},
            world = 0, archive_fetches = [], article_fetches = [], corpus = [],
            logged = []\<rparr>"

definition site_settings :: settings where
  "site_settings = \<lparr>archive_page_urls_by_date = False, archive_page_urls_by_id = True,
     date_from = 737425, date_until = 737455, archive_url_format = ''A'',
     go_reverse_in_archive = False, min_pagenum = 1, max_pagenum = None,
     next_url_by_regex = True, next_url_by_pagenum = False,
     same_article_url_threshold = 0, create_corpus = True\<rparr>"

definition site :: "(nat, string) env" where
  "site = \<lparr>settings = site_settings,
     archive_download_url =
       (\<lambda>w u. (if u = ''A'' \<or> u = ''B'' then Some u else None, Suc w)),
     article_download_url =
       (\<lambda>w u. (if u = ''x'' \<or> u = ''a'' \<or> u = ''b'' then Some u else None, Suc w)),
     extract_article_urls_from_page =
       (\<lambda>h s. if h = ''A'' then [''x'']
              else if h = ''x'' then [''B'', ''a'', ''b'']
              else if h = ''a'' then [''b'']
              else if h = ''b'' then [''a'']
              else []),
     extract_next_page_url = (\<lambda>h s. if h = ''A'' then Some ''B'' else None),
     extract_article_date = (\<lambda>h s. if h = ''x'' then None else Some 737425),
     set_order = (\<lambda>S. filter (\<lambda>u. u \<in> S) [''a'', ''b'', ''x'', ''A'', ''B''])\<rparr>"

text \<open>
  The state of the example site when \<open>process_urls(url_iterator())\<close> has returned and
  \<open>download_gathered_new_urls\<close> has not yet been called.
\<close>

definition site_after_archive :: "(nat, string) crawler" where
  "site_after_archive =
     \<lparr>good_urls = {''A'', ''B''}, problematic_urls = {}, known_article_urls = {},
      good_article_urls = {''x''}, problematic_article_urls = {},
      new_urls = {''B'', ''a'', ''b''}, world = 3, archive_fetches = [''A'', ''B''],
      article_fetches = [''x''], corpus = [],
      logged = [(WARNING, ''x'', DateNotInInterval None)]\<rparr>"

text \<open>The state of the example site at the end of the run.\<close>

definition site_finished :: "(nat, string) crawler" where
  "site_finished =
     \<lparr>good_urls = {''A'', ''B''}, problematic_urls = {}, known_article_urls = {},
      good_article_urls = {''x'', ''a'', ''b''}, problematic_article_urls = {}, new_urls = {},
      world = 5, archive_fetches = [''A'', ''B''], article_fetches = [''x'', ''a'', ''b''],
      corpus = [(''a'', ''a''), (''b'', ''b'')],
      logged = [(WARNING, ''x'', DateNotInInterval None), (ERROR, ''a'', TrueNewUrl),
                (ERROR, ''b'', TrueNewUrl), (ERROR, ''b'', TrueNewUrl),
                (WARNING, ''b'', AlreadyDownloaded)]\<rparr>"

text \<open>The example site with both ways of generating archive URLs switched off.\<close>

definition no_mode_site :: "(nat, string) env" where
  "no_mode_site = site\<lparr>settings := site_settings\<lparr>archive_page_urls_by_id := False\<rparr>\<rparr>"

text \<open>
  A site paginated by page number, with pages 1 to 3: every archive page can be
  downloaded and lists the article \<open>x\<close>.
\<close>

definition paged_site :: "(nat, string) env" where
  "paged_site = \<lparr>settings = site_settings\<lparr>archive_url_format := ''P'',
       max_pagenum := Some 3, next_url_by_regex := False, next_url_by_pagenum := True\<rparr>,
     archive_download_url = (\<lambda>w u. (Some u, Suc w)),
     article_download_url = (\<lambda>w u. (Some u, Suc w)),
     extract_article_urls_from_page = (\<lambda>h s. [''x'']),
     extract_next_page_url = (\<lambda>h s. None),
     extract_article_date = (\<lambda>h s. Some 737425),
     set_order = (\<lambda>S. filter (\<lambda>u. u \<in> S) [''x''])\<rparr>"

text \<open>
  A site paginated by page number without \<open>max_pagenum\<close>: the pages \<open>P\<close> and \<open>P1\<close> list
  the article \<open>x\<close>, every other page lists nothing.
\<close>

definition endless_site :: "(nat, string) env" where
  "endless_site = paged_site\<lparr>
     settings := (settings paged_site)\<lparr>max_pagenum := None\<rparr>,
     extract_article_urls_from_page :=
       (\<lambda>h s. if h = ''P'' \<or> h = ''P1'' then [''x''] else [])\<rparr>"

text \<open>The settings of date mode for January 2020 and a template without a day.\<close>

definition january_2020 :: settings where
  "january_2020 = \<lparr>archive_page_urls_by_date = True, archive_page_urls_by_id = False,
     date_from = 737425, date_until = 737455,
     archive_url_format = ''https://x/#year/#month'',
     go_reverse_in_archive = False, min_pagenum = 1, max_pagenum = None,
     next_url_by_regex = False, next_url_by_pagenum = False,
     same_article_url_threshold = 0, create_corpus = True\<rparr>"

text \<open>Date mode and id mode both on, for a range of dates that holds no day.\<close>

definition no_days :: settings where
  "no_days = january_2020\<lparr>archive_page_urls_by_id := True,
     date_from := 737426, date_until := 737425\<rparr>"

text \<open>
  A site with next-page links by regex, whose only archive page \<open>A\<close> names itself as the
  next page; the first download succeeds and every later one fails.
\<close>

definition flaky_site :: "(nat, string) env" where
  "flaky_site = \<lparr>settings = site_settings,
     archive_download_url = (\<lambda>w u. (if w = 0 then Some u else None, Suc w)),
     article_download_url = (\<lambda>w u. (None, Suc w)),
     extract_article_urls_from_page = (\<lambda>h s. []),
     extract_next_page_url = (\<lambda>h s. Some ''A''),
     extract_article_date = (\<lambda>h s. None),
     set_order = (\<lambda>S. filter (\<lambda>u. u \<in> S) [''A''])\<rparr>"

text \<open>
  The site whose archive page \<open>A\<close> names itself as the next page, with every download
  succeeding.
\<close>

definition cyclic_site :: "(nat, string) env" where
  "cyclic_site = flaky_site\<lparr>archive_download_url := (\<lambda>w u. (Some u, Suc w))\<rparr>"

section \<open>Basic facts\<close>

subsection \<open>What each operation leaves alone\<close>

lemma admit_new_keeps [simp]:
  "good_urls (admit_new st e) = good_urls st"
  "problematic_urls (admit_new st e) = problematic_urls st"
  "known_article_urls (admit_new st e) = known_article_urls st"
  "good_article_urls (admit_new st e) = good_article_urls st"
  "problematic_article_urls (admit_new st e) = problematic_article_urls st"
  "world (admit_new st e) = world st"
  "archive_fetches (admit_new st e) = archive_fetches st"
  "article_fetches (admit_new st e) = article_fetches st"
  "corpus (admit_new st e) = corpus st"
  "logged (admit_new st e) = logged st"
  by (simp_all add: admit_new_def)

lemma foldl_admit_new_keeps [simp]:
  "good_urls (foldl admit_new st es) = good_urls st"
  "problematic_urls (foldl admit_new st es) = problematic_urls st"
  "known_article_urls (foldl admit_new st es) = known_article_urls st"
  "good_article_urls (foldl admit_new st es) = good_article_urls st"
  "problematic_article_urls (foldl admit_new st es) = problematic_article_urls st"
  "world (foldl admit_new st es) = world st"
  "archive_fetches (foldl admit_new st es) = archive_fetches st"
  "article_fetches (foldl admit_new st es) = article_fetches st"
  "corpus (foldl admit_new st es) = corpus st"
  "logged (foldl admit_new st es) = logged st"
  by (induction es arbitrary: st; simp)+

lemma unclassified_admit_new [simp]: "unclassified (admit_new st e) u = unclassified st u"
  by (simp add: unclassified_def)

lemma new_urls_admit_new:
  "new_urls (admit_new st e) = (if unclassified st e then insert e (new_urls st) else new_urls st)"
  by (simp add: admit_new_def unclassified_def)

lemma new_urls_foldl_admit_new:
  "new_urls (foldl admit_new st es) = new_urls st \<union> {e \<in> set es. unclassified st e}"
  by (induction es arbitrary: st) (auto simp: new_urls_admit_new)

lemma process_url_keeps [simp]:
  "good_urls (process_url env st u) = good_urls st"
  "problematic_urls (process_url env st u) = problematic_urls st"
  "known_article_urls (process_url env st u) = known_article_urls st"
  "archive_fetches (process_url env st u) = archive_fetches st"
  by (simp_all add: process_url_def Let_def split: option.splits)

lemma foldl_process_url_keeps [simp]:
  "good_urls (foldl (process_url env) st us) = good_urls st"
  "problematic_urls (foldl (process_url env) st us) = problematic_urls st"
  "known_article_urls (foldl (process_url env) st us) = known_article_urls st"
  "archive_fetches (foldl (process_url env) st us) = archive_fetches st"
  by (induction us arbitrary: st; simp)+

lemma archive_page_step_keeps [simp]:
  "known_article_urls (fst (archive_page_step env base st u n)) = known_article_urls st"
  "good_article_urls (fst (archive_page_step env base st u n)) = good_article_urls st"
  "problematic_article_urls (fst (archive_page_step env base st u n)) =
     problematic_article_urls st"
  "new_urls (fst (archive_page_step env base st u n)) = new_urls st"
  "article_fetches (fst (archive_page_step env base st u n)) = article_fetches st"
  "corpus (fst (archive_page_step env base st u n)) = corpus st"
  "logged (fst (archive_page_step env base st u n)) = logged st"
  by (simp_all add: archive_page_step_def Let_def split: option.splits)

lemma archive_fetches_step [simp]:
  "archive_fetches (fst (archive_page_step env base st u n)) = archive_fetches st @ [u]"
  by (simp add: archive_page_step_def Let_def split: option.splits)

subsection \<open>Invariants carried through the loops\<close>

lemma foldl_invariant:
  assumes "P s" and "\<And>s v. P s \<Longrightarrow> P (f s v)"
  shows "P (foldl f s vs)"
  using assms(1)
proof (induction vs arbitrary: s)
  case Nil
  then show ?case by simp
next
  case (Cons v vs)
  from Cons.prems have "P (f s v)" by (rule assms(2))
  then have "P (foldl f (f s v) vs)" by (rule Cons.IH)
  then show ?case by simp
qed

lemma gen_article_urls_invariant:
  assumes run: "gen_article_urls env consume base st u n = Some st'"
    and P: "P st"
    and step: "\<And>s v k. P s \<Longrightarrow> P (fst (archive_page_step env base s v k))"
    and cons: "\<And>s v. P s \<Longrightarrow> P (consume s v)"
  shows "P st'"
proof -
  let ?Q = "\<lambda>(e :: ('a, 'b) env) c b s (v :: url) (k :: int) s'.
              e = env \<and> c = consume \<and> b = base \<longrightarrow> P s \<longrightarrow> P s'"
  have "?Q env consume base st u n st'"
  proof (rule gen_article_urls.raw_induct [where P = ?Q, OF _ run])
    fix f and e :: "('a, 'b) env" and c b s and v :: url and k :: int and s'
    assume IH: "\<And>e c b s v k y. f e c b s v k = Some y \<Longrightarrow> ?Q e c b s v k y"
      and body: "(let r = archive_page_step e b s v k;
                      st' = foldl c (fst r) (fst (snd r))
                  in case snd (snd r) of None \<Rightarrow> Some st'
                     | Some next_url \<Rightarrow> f e c b st' next_url (k + 1)) = Some s'"
    show "?Q e c b s v k s'"
    proof (intro impI, elim conjE)
      assume eq: "e = env" "c = consume" "b = base" and Ps: "P s"
      let ?r = "archive_page_step env base s v k"
      let ?s = "foldl consume (fst ?r) (fst (snd ?r))"
      have P': "P ?s"
      proof (rule foldl_invariant [where P = P])
        show "P (fst ?r)" using Ps by (rule step)
      next
        fix s v assume "P s" then show "P (consume s v)" by (rule cons)
      qed
      show "P s'"
      proof (cases "snd (snd ?r)")
        case None
        with body eq have "s' = ?s" by (simp add: Let_def)
        with P' show ?thesis by simp
      next
        case (Some next_url)
        with body eq have "f env consume base ?s next_url (k + 1) = Some s'"
          by (simp add: Let_def)
        from IH [OF this] P' show ?thesis by simp
      qed
    qed
  qed
  with P show ?thesis by simp
qed

lemma for_archive_page_urls_invariant:
  assumes run: "for_archive_page_urls env consume st urls = Some st'"
    and P: "P st"
    and step: "\<And>base s v k. P s \<Longrightarrow> P (fst (archive_page_step env base s v k))"
    and cons: "\<And>s v. P s \<Longrightarrow> P (consume s v)"
  shows "P st'"
  using run P
proof (induction urls arbitrary: st)
  case Nil
  then show ?case by simp
next
  case (Cons base rest)
  from Cons.prems(1) obtain s1 where
    s1: "gen_article_urls env consume base st base (min_pagenum (settings env)) = Some s1"
    and rest: "for_archive_page_urls env consume s1 rest = Some st'"
    by (auto simp: gen_article_urls_from_archive_page_url_including_subpages_def
        split: option.splits)
  have "P s1"
    using s1 Cons.prems(2) step cons by (rule gen_article_urls_invariant)
  with rest show ?case by (rule Cons.IH)
qed

lemma while_new_urls_invariant:
  assumes run: "while_new_urls env st = Some st'"
    and P: "P st"
    and take: "\<And>s. P s \<Longrightarrow> P (take_new_urls env s)"
    and proc: "\<And>s v. P s \<Longrightarrow> P (process_url env s v)"
  shows "P st'"
proof -
  let ?Q = "\<lambda>(e :: ('a, 'b) env) s s'. e = env \<longrightarrow> P s \<longrightarrow> P s'"
  have "?Q env st st'"
  proof (rule while_new_urls.raw_induct [where P = ?Q, OF _ run])
    fix f and e :: "('a, 'b) env" and s s'
    assume IH: "\<And>e s y. f e s = Some y \<Longrightarrow> ?Q e s y"
      and body: "(if new_urls s \<noteq> {}
                  then f e (process_urls e (take_new_urls e s) (set_order e (new_urls s)))
                  else Some s) = Some s'"
    show "?Q e s s'"
    proof (intro impI)
      assume eq: "e = env" and Ps: "P s"
      show "P s'"
      proof (cases "new_urls s = {}")
        case True
        with body Ps show ?thesis by simp
      next
        case False
        let ?s = "process_urls env (take_new_urls env s) (set_order env (new_urls s))"
        have "P ?s"
          unfolding process_urls_def
        proof (rule foldl_invariant [where P = P])
          show "P (take_new_urls env s)" using Ps by (rule take)
        next
          fix s v assume "P s" then show "P (process_url env s v)" by (rule proc)
        qed
        moreover from False body eq have "f env ?s = Some s'" by simp
        ultimately show ?thesis using IH by simp
      qed
    qed
  qed
  with P show ?thesis by simp
qed

lemma download_and_extract_all_articles_invariant:
  assumes run: "download_and_extract_all_articles env st = Some (Inr st')"
    and P: "P st"
    and step: "\<And>base s v k. P s \<Longrightarrow> P (fst (archive_page_step env base s v k))"
    and proc: "\<And>s v. P s \<Longrightarrow> P (process_url env s v)"
    and take: "\<And>s. P s \<Longrightarrow> P (take_new_urls env s)"
    and recheck: "\<And>s. P s \<Longrightarrow> P (recheck_new_urls s)"
  shows "P st'"
proof -
  from run obtain s1 where
    it: "for_archive_page_urls env (process_url env) st (archive_page_urls (settings env)) = Some s1"
    and dr: "while_new_urls env (recheck_new_urls s1) = Some st'"
    by (auto simp: download_and_extract_all_articles_def url_iterator_def Let_def
        download_gathered_new_urls_def split: option.splits sum.splits if_splits)
  have "P s1" using it P step proc by (rule for_archive_page_urls_invariant)
  then have "P (recheck_new_urls s1)" by (rule recheck)
  with dr show ?thesis using take proc by (rule while_new_urls_invariant)
qed

subsection \<open>Running the example site\<close>

lemmas site_defs = site_def site_settings_def fresh_def
lemmas run_defs = download_and_extract_all_articles_def download_gathered_new_urls_def
  recheck_new_urls_def take_new_urls_def process_urls_def
  url_iterator_def archive_page_urls_def
  gen_article_urls_from_archive_page_url_including_subpages_def
  archive_page_step_def crawler_extract_next_page_url_def process_url_def admit_new_def
  article_date_is_ok_def Let_def

lemma filter_insert:
  "Set.filter P (insert a A) = (if P a then insert a (Set.filter P A) else Set.filter P A)"
  by auto

lemma filter_empty: "Set.filter P {} = {}"
  by auto

lemmas eval_simps = filter_insert filter_empty insert_commute

lemma site_run:
  "download_and_extract_all_articles site fresh = Some (Inr
     \<lparr>good_urls = {''A'', ''B''}, problematic_urls = {}, known_article_urls = {},
      good_article_urls = {''x'', ''a'', ''b''}, problematic_article_urls = {}, new_urls = {},
      world = 5, archive_fetches = [''A'', ''B''], article_fetches = [''x'', ''a'', ''b''],
      corpus = [(''a'', ''a''), (''b'', ''b'')],
      logged = [(WARNING, ''x'', DateNotInInterval None), (ERROR, ''a'', TrueNewUrl),
                (ERROR, ''b'', TrueNewUrl), (ERROR, ''b'', TrueNewUrl),
                (WARNING, ''b'', AlreadyDownloaded)]\<rparr>)"
  by (simp add: site_defs run_defs gen_article_urls.simps while_new_urls.simps
      eval_simps del: Set.filter_eq)

subsection \<open>The three outcomes of one round of \<open>process_urls\<close>\<close>

lemma process_url_duplicate:
  "url \<in> good_article_urls st \<or> url \<in> problematic_article_urls st \<Longrightarrow>
   process_url env st url = st\<lparr>logged := logged st @ [(WARNING, url, AlreadyDownloaded)]\<rparr>"
  by (simp add: process_url_def)

lemma process_url_failed:
  assumes "url \<notin> good_article_urls st" "url \<notin> problematic_article_urls st"
    and "article_download_url env (world st) url = (None, w')"
  shows "process_url env st url =
           st\<lparr>world := w', article_fetches := article_fetches st @ [url],
              logged := logged st @ [(ERROR, url, DownloadFailed)],
              problematic_article_urls := insert url (problematic_article_urls st)\<rparr>"
  using assms by (simp add: process_url_def)

lemma process_url_downloaded:
  assumes "url \<notin> good_article_urls st" "url \<notin> problematic_article_urls st"
    and "article_download_url env (world st) url = (Some html, w')"
  shows "good_article_urls (process_url env st url) = insert url (good_article_urls st)"
    and "problematic_article_urls (process_url env st url) = problematic_article_urls st"
    and "article_fetches (process_url env st url) = article_fetches st @ [url]"
    and "world (process_url env st url) = w'"
    and "new_urls (process_url env st url) =
           new_urls st \<union>
           {e \<in> set (extract_article_urls_from_page env html (settings env)).
              unclassified (st\<lparr>good_article_urls := insert url (good_article_urls st)\<rparr>) e}"
    and "corpus (process_url env st url) =
           (if article_date_is_ok (settings env) (extract_article_date env html (settings env))
               \<and> create_corpus (settings env)
            then corpus st @ [(url, html)] else corpus st)"
  using assms
  by (simp_all add: process_url_def Let_def new_urls_foldl_admit_new unclassified_def)

subsection \<open>The list of archive URLs\<close>

lemma sort_Nil_iff: "sort xs = [] \<longleftrightarrow> xs = []"
  by (metis length_sort length_0_conv)

lemma sort_list_Nil [simp]: "sort_list r xs = [] \<longleftrightarrow> xs = []"
  by (simp add: sort_list_def sort_Nil_iff)

lemma archive_page_urls_of_dates_Nil:
  "archive_page_urls_of_dates s = [] \<longleftrightarrow> date_until s < date_from s"
  by (auto simp: archive_page_urls_of_dates_def)

lemma archive_page_urls_Nil:
  "archive_page_urls s = [] \<longleftrightarrow>
     (\<not> archive_page_urls_by_date s \<or> date_until s < date_from s) \<and>
     \<not> archive_page_urls_by_id s"
  by (auto simp: archive_page_urls_def Let_def archive_page_urls_of_dates_Nil)

subsection \<open>Pagination by page number\<close>

lemma str_int_1_2 [simp]: "str_int 1 = ''1''" "str_int 2 = ''2''"
  by (simp_all add: str_int_def digits.simps)

lemma next_page_by_pagenum:
  assumes "\<not> use_regex" "use_pagenum" "finite (known_article_urls st)"
  shows "crawler_extract_next_page_url env st html base arts page_num maxp use_regex
           use_pagenum thr =
         (if arts \<noteq> [] \<and>
             (known_article_urls st = {} \<or>
              thr < int (card (known_article_urls st \<inter> set arts))) \<and>
             (maxp = None \<or> (\<exists>m. maxp = Some m \<and> page_num < m))
          then Some (base @ str_int page_num) else None)"
  using assms by (auto simp: crawler_extract_next_page_url_def split: option.splits)

lemma archive_page_step_pagenum:
  assumes mode: "\<not> next_url_by_regex (settings env)" "next_url_by_pagenum (settings env)"
    and known: "known_article_urls st = {}"
    and dl: "archive_download_url env (world st) u = (Some h, w')"
    and arts: "extract_article_urls_from_page env h (settings env) \<noteq> []"
  shows "snd (snd (archive_page_step env base st u n)) =
           (if (case max_pagenum (settings env) of None \<Rightarrow> True | Some m \<Rightarrow> n < m)
            then Some (base @ str_int n) else None)"
    and "fst (snd (archive_page_step env base st u n)) =
           extract_article_urls_from_page env h (settings env)"
  using assms
  by (simp_all add: archive_page_step_def Let_def crawler_extract_next_page_url_def)

lemma walk_step:
  "gen_article_urls env consume base st u n =
     (case snd (snd (archive_page_step env base st u n)) of
        None \<Rightarrow> Some (foldl consume (fst (archive_page_step env base st u n))
                        (fst (snd (archive_page_step env base st u n))))
      | Some next_url \<Rightarrow>
          gen_article_urls env consume base
            (foldl consume (fst (archive_page_step env base st u n))
               (fst (snd (archive_page_step env base st u n)))) next_url (n + 1))"
  by (subst gen_article_urls.simps) (simp add: Let_def)

subsection \<open>Sorting the generated URLs\<close>

lemma sort_list_order:
  "mset ys = mset xs \<Longrightarrow> sort_list r ys = sort_list r xs"
proof -
  assume eq: "mset ys = mset xs"
  have "sort ys = sort xs"
    by (rule properties_for_sort) (simp_all add: eq)
  moreover have "sort (rev ys) = sort (rev xs)"
    by (rule properties_for_sort) (simp_all add: eq)
  ultimately show ?thesis by (simp add: sort_list_def)
qed

lemma sort_rev: "sort (rev xs) = sort (xs :: string list)"
  by (rule properties_for_sort) simp_all

lemma sort_list_remdups:
  "sort_list r (remdups xs) = (if r then rev else id) (sorted_list_of_set (set xs))"
  by (simp add: sort_list_def sort_rev sorted_list_of_set_sort_remdups)

lemma days_of_range:
  "(\<lambda>k. f (a + int k)) ` {0 ..< nat (b - a + 1)} = f ` {a .. b}"
proof (intro set_eqI iffI)
  fix y assume "y \<in> (\<lambda>k. f (a + int k)) ` {0 ..< nat (b - a + 1)}"
  then obtain k where "k < nat (b - a + 1)" and y: "y = f (a + int k)" by auto
  then have "a + int k \<in> {a .. b}" by auto
  with y show "y \<in> f ` {a .. b}" by blast
next
  fix y assume "y \<in> f ` {a .. b}"
  then obtain d where d: "a \<le> d" "d \<le> b" and y: "y = f d" by auto
  then have "nat (d - a) \<in> {0 ..< nat (b - a + 1)}" and "a + int (nat (d - a)) = d"
    by auto
  with y show "y \<in> (\<lambda>k. f (a + int k)) ` {0 ..< nat (b - a + 1)}"
    by (metis (mono_tags, lifting) image_eqI)
qed

lemma archive_page_urls_of_dates_sorted:
  "archive_page_urls_of_dates s =
     (if go_reverse_in_archive s then rev else id)
       (sorted_list_of_set
          ((\<lambda>d. gen_archive_page_url_from_date d (archive_url_format s)) `
             {date_from s .. date_until s}))"
  by (simp add: archive_page_urls_of_dates_def sort_list_remdups
      days_of_range [where f = "\<lambda>d. gen_archive_page_url_from_date d (archive_url_format s)"])

subsection \<open>The days of January 2020\<close>

lemma ord2ymd_january_2020:
  assumes "737425 \<le> d" "d \<le> 737455"
  shows "ord2ymd d = (2020, 1, d - 737424)"
proof -
  have a: "(d - 1) div 146097 = 5" "(d - 1) mod 146097 = d - 730486"
    using int_div_pos_eq [of "d - 1" 146097 5 "d - 730486"]
      int_mod_pos_eq [of "d - 1" 146097 5 "d - 730486"] assms by simp_all
  have b: "(d - 730486) div 36524 = 0" "(d - 730486) mod 36524 = d - 730486"
    using int_div_pos_eq [of "d - 730486" 36524 0 "d - 730486"]
      int_mod_pos_eq [of "d - 730486" 36524 0 "d - 730486"] assms by simp_all
  have c: "(d - 730486) div 1461 = 4" "(d - 730486) mod 1461 = d - 736330"
    using int_div_pos_eq [of "d - 730486" 1461 4 "d - 736330"]
      int_mod_pos_eq [of "d - 730486" 1461 4 "d - 736330"] assms by simp_all
  have e: "(d - 736330) div 365 = 3" "(d - 736330) mod 365 = d - 737425"
    using int_div_pos_eq [of "d - 736330" 365 3 "d - 737425"]
      int_mod_pos_eq [of "d - 736330" 365 3 "d - 737425"] assms by simp_all
  show ?thesis
  proof (cases "d < 737439")
    case True
    then have m: "(d - 737375) div 32 = 1"
      using int_div_pos_eq [of "d - 737375" 32 1 "d - 737407"] assms by simp
    show ?thesis
      using assms True
      by (simp add: ord2ymd_def Let_def a b c e m DAYS_BEFORE_MONTH_def DAYS_IN_MONTH_def)
  next
    case False
    then have m: "(d - 737375) div 32 = 2"
      using int_div_pos_eq [of "d - 737375" 32 2 "d - 737439"] assms by simp
    show ?thesis
      using assms False
      by (simp add: ord2ymd_def Let_def a b c e m DAYS_BEFORE_MONTH_def DAYS_IN_MONTH_def)
  qed
qed

lemma url_january_2020:
  assumes "737425 \<le> d" "d \<le> 737455"
  shows "gen_archive_page_url_from_date d ''https://x/#year/#month'' = ''https://x/2020/01''"
  by (simp add: gen_archive_page_url_from_date_def year_def month_def
      ord2ymd_january_2020 [OF assms] format_0d_def digits.simps)

lemma urls_january_2020:
  "(\<lambda>d. gen_archive_page_url_from_date d ''https://x/#year/#month'') ` {737425 .. 737455}
     = {''https://x/2020/01''}"
  by (auto simp: url_january_2020 intro!: image_eqI [where x = 737425])

subsection \<open>New URLs and known article URLs\<close>

lemma recheck_new_urls_keeps [simp]:
  "good_urls (recheck_new_urls st) = good_urls st"
  "problematic_urls (recheck_new_urls st) = problematic_urls st"
  "known_article_urls (recheck_new_urls st) = known_article_urls st"
  "good_article_urls (recheck_new_urls st) = good_article_urls st"
  "problematic_article_urls (recheck_new_urls st) = problematic_article_urls st"
  "world (recheck_new_urls st) = world st"
  "archive_fetches (recheck_new_urls st) = archive_fetches st"
  "article_fetches (recheck_new_urls st) = article_fetches st"
  "corpus (recheck_new_urls st) = corpus st"
  "logged (recheck_new_urls st) = logged st"
  by (simp_all add: recheck_new_urls_def)

lemma new_urls_recheck: "new_urls (recheck_new_urls st) = {u \<in> new_urls st. unclassified st u}"
  by (auto simp: recheck_new_urls_def unclassified_def)

lemma take_new_urls_keeps [simp]:
  "good_urls (take_new_urls env st) = good_urls st"
  "problematic_urls (take_new_urls env st) = problematic_urls st"
  "known_article_urls (take_new_urls env st) = known_article_urls st"
  "good_article_urls (take_new_urls env st) = good_article_urls st"
  "problematic_article_urls (take_new_urls env st) = problematic_article_urls st"
  "world (take_new_urls env st) = world st"
  "archive_fetches (take_new_urls env st) = archive_fetches st"
  "article_fetches (take_new_urls env st) = article_fetches st"
  "corpus (take_new_urls env st) = corpus st"
  "new_urls (take_new_urls env st) = {}"
  by (simp_all add: take_new_urls_def)

lemma new_urls_process_url_subset:
  "new_urls (process_url env st u) \<subseteq>
     new_urls st \<union> {e. e \<notin> good_urls st \<and> e \<notin> problematic_urls st \<and>
                        e \<notin> known_article_urls st}"
  by (auto simp: process_url_def Let_def new_urls_foldl_admit_new unclassified_def
      split: option.splits)

lemma new_apart_process_url:
  "new_apart_from_known K s \<Longrightarrow> new_apart_from_known K (process_url env s u)"
  using new_urls_process_url_subset [of env s u]
  by (auto simp: new_apart_from_known_def)

lemma new_apart_step:
  "new_apart_from_known K s \<Longrightarrow> new_apart_from_known K (fst (archive_page_step env b s u n))"
  by (simp add: new_apart_from_known_def)

lemma new_apart_take:
  "new_apart_from_known K s \<Longrightarrow> new_apart_from_known K (take_new_urls env s)"
  by (simp add: new_apart_from_known_def)

lemma new_apart_recheck:
  "new_apart_from_known K s \<Longrightarrow> new_apart_from_known K (recheck_new_urls s)"
  by (auto simp: new_apart_from_known_def new_urls_recheck)

lemma site_archive_run:
  "url_iterator site (process_url site) fresh = Some (Inr site_after_archive)"
  by (simp add: site_defs run_defs gen_article_urls.simps site_after_archive_def
      eval_simps del: Set.filter_eq)

subsection \<open>Good and problematic URLs\<close>

lemma article_sets_process_url:
  "good_article_urls st \<inter> problematic_article_urls st = {} \<Longrightarrow>
   good_article_urls (process_url env st u) \<inter> problematic_article_urls (process_url env st u)
     = {}"
  by (auto simp: process_url_def Let_def split: option.splits)

lemma archive_sets_fetched_step:
  "archive_sets_fetched s \<Longrightarrow> archive_sets_fetched (fst (archive_page_step env b s u n))"
  by (auto simp: archive_sets_fetched_def archive_page_step_def Let_def split: option.splits)

lemma archive_sets_fetched_process_url:
  "archive_sets_fetched s \<Longrightarrow> archive_sets_fetched (process_url env s u)"
  by (simp add: archive_sets_fetched_def)

lemma archive_sets_fetched_take:
  "archive_sets_fetched s \<Longrightarrow> archive_sets_fetched (take_new_urls env s)"
  by (simp add: archive_sets_fetched_def)

lemma archive_sets_fetched_recheck:
  "archive_sets_fetched s \<Longrightarrow> archive_sets_fetched (recheck_new_urls s)"
  by (simp add: archive_sets_fetched_def)

lemma archive_sets_by_step:
  assumes "\<forall>w u. (fst (archive_download_url env w u) \<noteq> None) = ok u"
    and "archive_sets_by ok s"
  shows "archive_sets_by ok (fst (archive_page_step env b s u n))"
proof (cases "fst (archive_download_url env (world s) u)")
  case None
  with assms(1) have "\<not> ok u" by metis
  with None assms(2) show ?thesis
    by (simp add: archive_sets_by_def archive_page_step_def Let_def)
next
  case (Some h)
  with assms(1) have "ok u" by (metis option.distinct(1))
  with Some assms(2) show ?thesis
    by (simp add: archive_sets_by_def archive_page_step_def Let_def)
qed

lemma archive_sets_by_others:
  "archive_sets_by ok s \<Longrightarrow> archive_sets_by ok (process_url env s u)"
  "archive_sets_by ok s \<Longrightarrow> archive_sets_by ok (take_new_urls env s)"
  "archive_sets_by ok s \<Longrightarrow> archive_sets_by ok (recheck_new_urls s)"
  by (simp_all add: archive_sets_by_def)

lemma archive_step_new_url:
  "u \<notin> good_urls s \<Longrightarrow> u \<notin> problematic_urls s \<Longrightarrow> good_urls s \<inter> problematic_urls s = {} \<Longrightarrow>
   good_urls (fst (archive_page_step env b s u n)) \<inter>
   problematic_urls (fst (archive_page_step env b s u n)) = {}"
  by (auto simp: archive_page_step_def Let_def split: option.splits)

lemma site_run_finished:
  "download_and_extract_all_articles site fresh = Some (Inr site_finished)"
  by (simp add: site_run site_finished_def)

subsection \<open>The loop over the new URLs\<close>

lemma while_new_urls_ends_empty:
  assumes "while_new_urls env st = Some st'"
  shows "new_urls st' = {}"
proof -
  let ?Q = "\<lambda>(e :: ('a, 'b) env) (s :: ('a, 'b) crawler) s'. new_urls s' = {}"
  show ?thesis
  proof (rule while_new_urls.raw_induct [where P = ?Q, OF _ assms])
    fix f and e :: "('a, 'b) env" and s s'
    assume IH: "\<And>e s y. f e s = Some y \<Longrightarrow> new_urls y = {}"
      and body: "(if new_urls s \<noteq> {}
                  then f e (process_urls e (take_new_urls e s) (set_order e (new_urls s)))
                  else Some s) = Some s'"
    show "new_urls s' = {}"
    proof (cases "new_urls s = {}")
      case True
      with body show ?thesis by simp
    next
      case False
      with body have "f e (process_urls e (take_new_urls e s) (set_order e (new_urls s)))
                        = Some s'" by simp
      then show ?thesis by (rule IH)
    qed
  qed
qed

lemma new_apart_from_archive_process_url:
  "new_apart_from_archive s \<Longrightarrow> new_apart_from_archive (process_url env s u)"
  using new_urls_process_url_subset [of env s u]
  by (auto simp: new_apart_from_archive_def)

lemma new_apart_from_archive_round:
  fixes env :: "('a, 'b) env"
  shows "new_apart_from_archive (process_urls env (take_new_urls env s) xs)"
  unfolding process_urls_def
proof (rule foldl_invariant [where P = new_apart_from_archive])
  show "new_apart_from_archive (take_new_urls env s)"
    by (simp add: new_apart_from_archive_def)
next
  fix t :: "('a, 'b) crawler" and v
  assume "new_apart_from_archive t"
  then show "new_apart_from_archive (process_url env t v)"
    by (rule new_apart_from_archive_process_url)
qed

lemma site_drain:
  "download_gathered_new_urls site site_after_archive = Some site_finished"
  by (simp add: site_defs site_after_archive_def site_finished_def
      download_gathered_new_urls_def recheck_new_urls_def take_new_urls_def process_urls_def
      process_url_def admit_new_def article_date_is_ok_def Let_def
      while_new_urls.simps eval_simps del: Set.filter_eq)

lemma site_drain_as_specified:
  "drain_as_specified site site_after_archive =
     Some (site_finished\<lparr>logged := [(WARNING, ''x'', DateNotInInterval None),
                                     (ERROR, ''a'', TrueNewUrl), (ERROR, ''b'', TrueNewUrl)]\<rparr>)"
  by (simp add: site_defs site_after_archive_def site_finished_def
      take_new_urls_def process_urls_def
      process_url_def admit_new_def article_date_is_ok_def Let_def
      drain_as_specified.simps eval_simps del: Set.filter_eq)

subsection \<open>Page numbers print differently\<close>

lemma digits_not_Nil [simp]: "digits n \<noteq> []" "[] \<noteq> digits n"
  by (subst digits.simps, simp)+

lemma digit_char_inj:
  assumes "a < 10" "b < 10" "''0123456789'' ! a = ''0123456789'' ! b"
  shows "a = b"
proof -
  have "distinct ''0123456789''" by simp
  moreover have "a < length ''0123456789''" "b < length ''0123456789''"
    using assms by simp_all
  ultimately show ?thesis using assms(3) by (simp add: nth_eq_iff_index_eq)
qed

lemma digit_char_not_minus: "a < 10 \<Longrightarrow> ''0123456789'' ! a \<noteq> CHR ''-''"
proof -
  assume "a < 10"
  then have "''0123456789'' ! a \<in> set ''0123456789''"
    by (intro nth_mem) simp
  then show ?thesis by auto
qed

lemma minus_not_in_digits: "CHR ''-'' \<notin> set (digits n)"
proof (induction n rule: digits.induct)
  case (1 n)
  show ?case
  proof (cases "n < 10")
    case True
    then show ?thesis
      by (subst digits.simps) (simp add: digit_char_not_minus [symmetric])
  next
    case False
    then have "CHR ''-'' \<notin> set (digits (n div 10))" by (rule 1)
    moreover have "''0123456789'' ! (n mod 10) \<noteq> CHR ''-''"
      by (rule digit_char_not_minus) simp
    ultimately show ?thesis using False
      by (subst digits.simps) auto
  qed
qed

lemma digits_inj: "digits m = digits n \<Longrightarrow> m = n"
proof (induction n arbitrary: m rule: digits.induct)
  case (1 n)
  show ?case
  proof (cases "n < 10")
    case n: True
    show ?thesis
    proof (cases "m < 10")
      case True
      with n 1(2) show ?thesis
        by (simp add: digits.simps [of m] digits.simps [of n] digit_char_inj)
    next
      case False
      with n 1(2) show ?thesis
        by (simp add: digits.simps [of m] digits.simps [of n])
    qed
  next
    case n: False
    show ?thesis
    proof (cases "m < 10")
      case True
      with n 1(2) show ?thesis
        by (simp add: digits.simps [of m] digits.simps [of n])
    next
      case False
      with n 1(2) have eq: "digits (m div 10) = digits (n div 10)"
        and last: "''0123456789'' ! (m mod 10) = ''0123456789'' ! (n mod 10)"
        by (simp_all add: digits.simps [of m] digits.simps [of n])
      from eq have "m div 10 = n div 10" by (rule 1(1) [OF n])
      moreover from last have "m mod 10 = n mod 10"
        by (intro digit_char_inj) simp_all
      ultimately show ?thesis by (metis div_mult_mod_eq)
    qed
  qed
qed

lemma str_int_not_Nil [simp]: "str_int i \<noteq> []"
  by (simp add: str_int_def)

lemma str_int_inj: "str_int i = str_int j \<Longrightarrow> i = j"
proof -
  assume eq: "str_int i = str_int j"
  have neg: False if "CHR ''-'' # digits a = digits b" for a b
  proof -
    from that have "CHR ''-'' \<in> set (digits b)" by (metis list.set_intros(1))
    then show False by (simp add: minus_not_in_digits)
  qed
  show "i = j"
  proof (cases "i < 0")
    case i: True
    show ?thesis
    proof (cases "j < 0")
      case True
      with i eq have "digits (nat (- i)) = digits (nat (- j))" by (simp add: str_int_def)
      then have "nat (- i) = nat (- j)" by (rule digits_inj)
      with i True show ?thesis by simp
    next
      case False
      with i eq neg show ?thesis by (simp add: str_int_def)
    qed
  next
    case i: False
    show ?thesis
    proof (cases "j < 0")
      case True
      with i eq neg [of "nat (- j)" "nat i"] show ?thesis by (simp add: str_int_def)
    next
      case False
      with i eq have "digits (nat i) = digits (nat j)" by (simp add: str_int_def)
      then have "nat i = nat j" by (rule digits_inj)
      with i False show ?thesis by simp
    qed
  qed
qed

lemma distinct_page_urls:
  "distinct (base # map (\<lambda>i. base @ str_int (n + int i)) [0 ..< k])"
proof -
  have "inj_on (\<lambda>i. base @ str_int (n + int i)) (set [0 ..< k])"
    by (rule inj_onI) (auto dest: str_int_inj)
  then have "distinct (map (\<lambda>i. base @ str_int (n + int i)) [0 ..< k])"
    by (simp add: distinct_map)
  then show ?thesis by auto
qed

subsection \<open>The walk over the pages of one base URL\<close>

lemma next_page_without_regex:
  assumes "\<not> next_url_by_regex (settings env)"
  shows "snd (snd (archive_page_step env base s u n)) = None \<or>
         snd (snd (archive_page_step env base s u n)) = Some (base @ str_int n)"
  using assms
  by (simp add: archive_page_step_def Let_def crawler_extract_next_page_url_def
      split: option.splits)

lemma next_page_below_max:
  assumes "\<not> next_url_by_regex (settings env)" "max_pagenum (settings env) = Some m"
    and "snd (snd (archive_page_step env base s u n)) = Some nx"
  shows "n < m"
  using assms
  by (simp add: archive_page_step_def Let_def crawler_extract_next_page_url_def
      split: option.splits if_splits)

lemma next_page_of_empty_page:
  assumes "\<not> next_url_by_regex (settings env)"
    and "\<forall>h w'. archive_download_url env (world s) u = (Some h, w') \<longrightarrow>
           extract_article_urls_from_page env h (settings env) = []"
  shows "snd (snd (archive_page_step env base s u n)) = None"
proof (cases "fst (archive_download_url env (world s) u)")
  case None
  then show ?thesis by (simp add: archive_page_step_def Let_def)
next
  case (Some h)
  then have "archive_download_url env (world s) u =
               (Some h, snd (archive_download_url env (world s) u))"
    by (metis prod.collapse)
  with assms(2) have "extract_article_urls_from_page env h (settings env) = []" by blast
  with Some assms(1) show ?thesis
    by (simp add: archive_page_step_def Let_def crawler_extract_next_page_url_def)
qed

lemma map_page_urls_Suc:
  "map (\<lambda>i. base @ str_int (n + int i)) [0 ..< Suc k] =
     (base @ str_int n) # map (\<lambda>i. base @ str_int (n + 1 + int i)) [0 ..< k]"
proof -
  have "map (\<lambda>i. base @ str_int (n + int i)) [0 ..< Suc k] =
          (base @ str_int (n + int 0)) #
          map (\<lambda>i. base @ str_int (n + int (Suc i))) [0 ..< k]"
    by (rule map_upt_Suc)
  also have "(\<lambda>i. base @ str_int (n + int (Suc i))) = (\<lambda>i. base @ str_int (n + 1 + int i))"
  proof
    fix i
    have "n + int (Suc i) = n + 1 + int i" by simp
    then show "base @ str_int (n + int (Suc i)) = base @ str_int (n + 1 + int i)"
      by (rule arg_cong [where f = "\<lambda>x. base @ str_int x"])
  qed
  finally show ?thesis by simp
qed

lemma walk_fetches:
  fixes env :: "('a, 'b) env"
  assumes run: "gen_article_urls env (process_url env) base st u n = Some st'"
    and mode: "\<not> next_url_by_regex (settings env)"
  shows "\<exists>k. archive_fetches st' =
           archive_fetches st @ u # map (\<lambda>i. base @ str_int (n + int i)) [0 ..< k]"
proof -
  let ?Q = "\<lambda>(e :: ('a, 'b) env) c b s (v :: url) (k :: int) s'.
              e = env \<and> c = process_url env \<and> b = base \<longrightarrow>
              (\<exists>j. archive_fetches s' =
                 archive_fetches s @ v # map (\<lambda>i. base @ str_int (k + int i)) [0 ..< j])"
  have "?Q env (process_url env) base st u n st'"
  proof (rule gen_article_urls.raw_induct [where P = ?Q, OF _ run])
    fix f and e :: "('a, 'b) env" and c b s and v :: url and k :: int and s'
    assume IH: "\<And>e c b s v k y. f e c b s v k = Some y \<Longrightarrow> ?Q e c b s v k y"
      and body: "(let r = archive_page_step e b s v k;
                      st' = foldl c (fst r) (fst (snd r))
                  in case snd (snd r) of None \<Rightarrow> Some st'
                     | Some next_url \<Rightarrow> f e c b st' next_url (k + 1)) = Some s'"
    show "?Q e c b s v k s'"
    proof (intro impI, elim conjE)
      assume eq: "e = env" "c = process_url env" "b = base"
      let ?r = "archive_page_step env base s v k"
      let ?s = "foldl (process_url env) (fst ?r) (fst (snd ?r))"
      have fs: "archive_fetches ?s = archive_fetches s @ [v]" by simp
      from next_page_without_regex [OF mode, of base s v k]
      show "\<exists>j. archive_fetches s' =
                 archive_fetches s @ v # map (\<lambda>i. base @ str_int (k + int i)) [0 ..< j]"
      proof
        assume None: "snd (snd ?r) = None"
        with body eq have "s' = ?s" by (simp add: Let_def)
        with fs have "archive_fetches s' =
            archive_fetches s @ v # map (\<lambda>i. base @ str_int (k + int i)) [0 ..< 0]"
          by simp
        then show ?thesis ..
      next
        assume Some: "snd (snd ?r) = Some (base @ str_int k)"
        with body eq have "f env (process_url env) base ?s (base @ str_int k) (k + 1) = Some s'"
          by (simp add: Let_def)
        from IH [OF this] obtain j where
          "archive_fetches s' = archive_fetches ?s @ (base @ str_int k) #
             map (\<lambda>i. base @ str_int (k + 1 + int i)) [0 ..< j]"
          by auto
        with fs have "archive_fetches s' =
            archive_fetches s @ v # map (\<lambda>i. base @ str_int (k + int i)) [0 ..< Suc j]"
          by (simp only: map_page_urls_Suc) simp
        then show ?thesis ..
      qed
    qed
  qed
  then show ?thesis by simp
qed

lemma walk_ends_below_max:
  assumes mode: "\<not> next_url_by_regex (settings env)"
    and maxp: "max_pagenum (settings env) = Some m"
  shows "\<exists>st' k. gen_article_urls env (process_url env) base st u n = Some st' \<and>
           k \<le> nat (m - n) \<and>
           archive_fetches st' =
             archive_fetches st @ u # map (\<lambda>i. base @ str_int (n + int i)) [0 ..< k]"
proof (induction "nat (m - n)" arbitrary: st u n)
  case 0
  let ?r = "archive_page_step env base st u n"
  let ?s = "foldl (process_url env) (fst ?r) (fst (snd ?r))"
  from 0 have "\<not> n < m" by simp
  with next_page_below_max [OF mode maxp, of base st u n]
  have "snd (snd ?r) = None" by (cases "snd (snd ?r)") auto
  then have "gen_article_urls env (process_url env) base st u n = Some ?s"
    by (subst walk_step) simp
  moreover have "archive_fetches ?s =
      archive_fetches st @ u # map (\<lambda>i. base @ str_int (n + int i)) [0 ..< 0]"
    by simp
  ultimately show ?case by blast
next
  case (Suc d)
  let ?r = "archive_page_step env base st u n"
  let ?s = "foldl (process_url env) (fst ?r) (fst (snd ?r))"
  have fs: "archive_fetches ?s = archive_fetches st @ [u]" by simp
  from next_page_without_regex [OF mode, of base st u n] show ?case
  proof
    assume "snd (snd ?r) = None"
    then have "gen_article_urls env (process_url env) base st u n = Some ?s"
      by (subst walk_step) simp
    moreover have "archive_fetches ?s =
        archive_fetches st @ u # map (\<lambda>i. base @ str_int (n + int i)) [0 ..< 0]"
      by simp
    ultimately show ?thesis by blast
  next
    assume nx: "snd (snd ?r) = Some (base @ str_int n)"
    from Suc(2) have "d = nat (m - (n + 1))" by simp
    from Suc(1) [OF this, of ?s "base @ str_int n"] obtain st' k where
      run: "gen_article_urls env (process_url env) base ?s (base @ str_int n) (n + 1) = Some st'"
      and k: "k \<le> nat (m - (n + 1))"
      and f: "archive_fetches st' = archive_fetches ?s @ (base @ str_int n) #
                map (\<lambda>i. base @ str_int (n + 1 + int i)) [0 ..< k]"
      by blast
    from nx run have "gen_article_urls env (process_url env) base st u n = Some st'"
      by (subst walk_step) simp
    moreover from k Suc(2) have "Suc k \<le> nat (m - n)" by simp
    moreover from f fs have "archive_fetches st' =
        archive_fetches st @ u # map (\<lambda>i. base @ str_int (n + int i)) [0 ..< Suc k]"
      by (simp only: map_page_urls_Suc) simp
    ultimately show ?thesis by blast
  qed
qed

lemma walk_ends_on_finite_site:
  assumes mode: "\<not> next_url_by_regex (settings env)"
    and fin: "\<forall>j\<ge>N. \<forall>w h w'. archive_download_url env w (base @ str_int j) = (Some h, w') \<longrightarrow>
                extract_article_urls_from_page env h (settings env) = []"
  shows "\<exists>st'. gen_article_urls env (process_url env) base st (base @ str_int n) (n + 1)
                 = Some st'"
proof (induction "nat (N - n)" arbitrary: st n)
  case 0
  let ?r = "archive_page_step env base st (base @ str_int n) (n + 1)"
  from 0 have "N \<le> n" by simp
  with fin have "\<forall>h w'. archive_download_url env (world st) (base @ str_int n) = (Some h, w') \<longrightarrow>
           extract_article_urls_from_page env h (settings env) = []"
    by blast
  with mode have "snd (snd ?r) = None" by (rule next_page_of_empty_page)
  then show ?case by (subst walk_step) simp
next
  case (Suc d)
  let ?r = "archive_page_step env base st (base @ str_int n) (n + 1)"
  let ?s = "foldl (process_url env) (fst ?r) (fst (snd ?r))"
  from next_page_without_regex [OF mode, of base st "base @ str_int n" "n + 1"] show ?case
  proof
    assume "snd (snd ?r) = None"
    then show ?thesis by (subst walk_step) simp
  next
    assume nx: "snd (snd ?r) = Some (base @ str_int (n + 1))"
    from Suc(2) have "d = nat (N - (n + 1))" by simp
    from Suc(1) [OF this, of ?s] obtain st' where
      "gen_article_urls env (process_url env) base ?s (base @ str_int (n + 1)) (n + 1 + 1)
         = Some st'" by blast
    with nx show ?thesis by (subst walk_step) simp
  qed
qed

lemma walk_from_base_ends_on_finite_site:
  assumes mode: "\<not> next_url_by_regex (settings env)"
    and fin: "\<forall>j\<ge>N. \<forall>w h w'. archive_download_url env w (base @ str_int j) = (Some h, w') \<longrightarrow>
                extract_article_urls_from_page env h (settings env) = []"
  shows "\<exists>st'. gen_article_urls env (process_url env) base st base n = Some st'"
proof -
  let ?r = "archive_page_step env base st base n"
  let ?s = "foldl (process_url env) (fst ?r) (fst (snd ?r))"
  from next_page_without_regex [OF mode, of base st base n] show ?thesis
  proof
    assume "snd (snd ?r) = None"
    then show ?thesis by (subst walk_step) simp
  next
    assume nx: "snd (snd ?r) = Some (base @ str_int n)"
    from walk_ends_on_finite_site [OF mode fin, of ?s n] obtain st' where
      "gen_article_urls env (process_url env) base ?s (base @ str_int n) (n + 1) = Some st'"
      by blast
    with nx show ?thesis by (subst walk_step) simp
  qed
qed

lemma cyclic_walk_diverges:
  "gen_article_urls cyclic_site c b s ''A'' n = None"
proof (rule ccontr)
  assume "gen_article_urls cyclic_site c b s ''A'' n \<noteq> None"
  then obtain y where run: "gen_article_urls cyclic_site c b s ''A'' n = Some y" by auto
  let ?Q = "\<lambda>(e :: (nat, string) env) (c :: (nat, string) crawler \<Rightarrow> url \<Rightarrow> (nat, string) crawler)
              (b :: url) (s :: (nat, string) crawler) (v :: url) (k :: int)
              (y :: (nat, string) crawler). \<not> (e = cyclic_site \<and> v = ''A'')"
  have "?Q cyclic_site c b s ''A'' n y"
  proof (rule gen_article_urls.raw_induct [where P = ?Q, OF _ run])
    fix f and e :: "(nat, string) env" and c b s and v :: url and k :: int and s'
    assume IH: "\<And>e c b s v k y. f e c b s v k = Some y \<Longrightarrow> ?Q e c b s v k y"
      and body: "(let r = archive_page_step e b s v k;
                      st' = foldl c (fst r) (fst (snd r))
                  in case snd (snd r) of None \<Rightarrow> Some st'
                     | Some next_url \<Rightarrow> f e c b st' next_url (k + 1)) = Some s'"
    show "\<not> (e = cyclic_site \<and> v = ''A'')"
    proof
      assume eq: "e = cyclic_site \<and> v = ''A''"
      then have "snd (snd (archive_page_step e b s v k)) = Some ''A''"
        by (simp add: cyclic_site_def flaky_site_def site_settings_def archive_page_step_def
            Let_def crawler_extract_next_page_url_def)
      with body have "f e c b (foldl c (fst (archive_page_step e b s v k))
                         (fst (snd (archive_page_step e b s v k)))) ''A'' (k + 1) = Some s'"
        by (simp add: Let_def)
      from IH [OF this] eq show False by simp
    qed
  qed
  then show False by simp
qed

subsection \<open>Stripping white space\<close>

lemma is_space_codes:
  "is_space c \<longleftrightarrow>
     (of_char c :: nat) \<in> {9, 10, 11, 12, 13, 28, 29, 30, 31, 32, 133, 160}"
proof -
  have e: "c = d \<longleftrightarrow> (of_char c :: nat) = of_char d" for d :: char
    by simp
  show ?thesis
    unfolding is_space_def list.set insert_iff empty_iff
    by (subst e)+ simp
qed

lemma dropWhile_all: "\<forall>x\<in>set xs. P x \<Longrightarrow> dropWhile P (xs @ ys) = dropWhile P ys"
  by (induction xs) simp_all

lemma strip_core:
  assumes a: "\<forall>x\<in>set a. is_space x" and c: "\<forall>x\<in>set c. is_space x"
    and b: "b = [] \<or> \<not> is_space (hd b) \<and> \<not> is_space (last b)"
  shows "strip (a @ b @ c) = b"
proof (cases "b = []")
  case True
  from a c have "\<forall>x\<in>set (a @ c). is_space x" by auto
  then have "dropWhile is_space (a @ c) = []"
    by (simp only: dropWhile_eq_Nil_conv)
  with True have "strip (a @ b @ c) = rev (dropWhile is_space (rev []))"
    by (simp only: strip_def append_Nil)
  with True show ?thesis by simp
next
  case False
  with b have h: "\<not> is_space (hd b)" and l: "\<not> is_space (last b)" by simp_all
  from False h have "dropWhile is_space (b @ c) = b @ c"
    by (cases b) simp_all
  with a have 1: "dropWhile is_space (a @ b @ c) = b @ c"
    by (simp add: dropWhile_all)
  from c have "\<forall>x\<in>set (rev c). is_space x" by simp
  then have "dropWhile is_space (rev c @ rev b) = dropWhile is_space (rev b)"
    by (rule dropWhile_all)
  also from False l have "\<dots> = rev b"
    by (cases "rev b") (simp_all add: last_rev [symmetric] hd_rev)
  finally show ?thesis by (simp add: strip_def 1)
qed

subsection \<open>New URLs stay until the re-check\<close>

lemma new_urls_mono_process_url: "new_urls st \<subseteq> new_urls (process_url env st u)"
  by (auto simp: process_url_def Let_def new_urls_foldl_admit_new split: option.splits)

lemma new_urls_mono_url_iterator:
  fixes env :: "('a, 'b) env"
  assumes "url_iterator env (process_url env) st = Some (Inr st')"
  shows "new_urls st \<subseteq> new_urls st'"
proof -
  from assms have run: "for_archive_page_urls env (process_url env) st
                   (archive_page_urls (settings env)) = Some st'"
    by (auto simp: url_iterator_def Let_def split: if_splits)
  have "new_urls st \<subseteq> new_urls st" by simp
  with run show ?thesis
  proof (rule for_archive_page_urls_invariant
      [where P = "\<lambda>s :: ('a, 'b) crawler. new_urls st \<subseteq> new_urls s"])
    fix base v k and s :: "('a, 'b) crawler"
    assume "new_urls st \<subseteq> new_urls s"
    then show "new_urls st \<subseteq> new_urls (fst (archive_page_step env base s v k))" by simp
  next
    fix v and s :: "('a, 'b) crawler"
    assume "new_urls st \<subseteq> new_urls s"
    with new_urls_mono_process_url [of s env v]
    show "new_urls st \<subseteq> new_urls (process_url env s v)" by blast
  qed
qed

subsection \<open>Replacing the placeholders\<close>

lemma replace_Nil [simp]: "old \<noteq> [] \<Longrightarrow> replace old new [] = []"
  by simp

lemma replace_text:
  assumes "CHR ''#'' \<notin> set s" and "hd old = CHR ''#''" and "old \<noteq> []"
  shows "replace old new (s @ rest) = s @ replace old new rest"
  using assms(1)
proof (induction s)
  case Nil
  then show ?case by simp
next
  case (Cons c s)
  from Cons.prems have c: "c \<noteq> CHR ''#''" by auto
  from assms(2,3) obtain o' where old: "old = CHR ''#'' # o'" by (cases old) auto
  from c have "\<not> prefix old (c # s @ rest)" by (simp add: old)
  with Cons assms(3) show ?case by simp
qed

lemma replace_hit:
  assumes "old \<noteq> []"
  shows "replace old new (old @ rest) = new @ replace old new rest"
proof -
  from assms obtain c o' where old: "old = c # o'" by (cases old) auto
  have "replace old new ((c # o') @ rest) = new @ replace old new rest"
    using assms by (simp add: old)
  then show ?thesis by (simp add: old)
qed

lemma replace_other:
  "replace ''#year'' new (''#month'' @ rest) = ''#month'' @ replace ''#year'' new rest"
  "replace ''#year'' new (''#day'' @ rest) = ''#day'' @ replace ''#year'' new rest"
  "replace ''#month'' new (''#day'' @ rest) = ''#day'' @ replace ''#month'' new rest"
  by simp_all

lemma no_hash_in_digits: "CHR ''#'' \<notin> set (digits n)"
proof (induction n rule: digits.induct)
  case (1 n)
  have t: "''0123456789'' ! k \<noteq> CHR ''#''" if "k < 10" for k
  proof -
    from that have "''0123456789'' ! k \<in> set ''0123456789''" by (intro nth_mem) simp
    then show ?thesis by auto
  qed
  show ?case
  proof (cases "n < 10")
    case True
    then show ?thesis by (subst digits.simps) (simp add: t [symmetric])
  next
    case False
    then have "CHR ''#'' \<notin> set (digits (n div 10))" by (rule 1)
    moreover have "''0123456789'' ! (n mod 10) \<noteq> CHR ''#''" by (rule t) simp
    ultimately show ?thesis using False by (subst digits.simps) auto
  qed
qed

lemma no_hash_in_format_0d: "CHR ''#'' \<notin> set (format_0d w i)"
  by (simp add: format_0d_def no_hash_in_digits)

lemma render_Cons:
  "render y m d (p # ps) =
     (case p of Text s \<Rightarrow> s | Year \<Rightarrow> y | Month \<Rightarrow> m | Day \<Rightarrow> d) @ render y m d ps"
  by (simp add: render_def)

lemma replace_year:
  assumes "\<forall>s. Text s \<in> set ps \<longrightarrow> CHR ''#'' \<notin> set s"
  shows "replace ''#year'' y (render ''#year'' ''#month'' ''#day'' ps) =
           render y ''#month'' ''#day'' ps"
  using assms
proof (induction ps)
  case Nil
  then show ?case by (simp add: render_def)
next
  case (Cons p ps)
  then have IH: "replace ''#year'' y (render ''#year'' ''#month'' ''#day'' ps) =
                   render y ''#month'' ''#day'' ps" by simp
  show ?case
  proof (cases p)
    case (Text s)
    with Cons.prems have "CHR ''#'' \<notin> set s" by simp
    then have "replace ''#year'' y (s @ render ''#year'' ''#month'' ''#day'' ps) =
                 s @ replace ''#year'' y (render ''#year'' ''#month'' ''#day'' ps)"
      by (rule replace_text) simp_all
    with Text IH show ?thesis by (simp add: render_Cons)
  next
    case Year
    have "replace ''#year'' y (''#year'' @ render ''#year'' ''#month'' ''#day'' ps) =
            y @ replace ''#year'' y (render ''#year'' ''#month'' ''#day'' ps)"
      by (rule replace_hit) simp
    with Year IH show ?thesis by (simp add: render_Cons)
  next
    case Month
    with IH replace_other(1) [of y "render ''#year'' ''#month'' ''#day'' ps"]
    show ?thesis by (simp add: render_Cons)
  next
    case Day
    with IH replace_other(2) [of y "render ''#year'' ''#month'' ''#day'' ps"]
    show ?thesis by (simp add: render_Cons)
  qed
qed

lemma replace_month:
  assumes "\<forall>s. Text s \<in> set ps \<longrightarrow> CHR ''#'' \<notin> set s" and "CHR ''#'' \<notin> set y"
  shows "replace ''#month'' m (render y ''#month'' ''#day'' ps) = render y m ''#day'' ps"
  using assms(1)
proof (induction ps)
  case Nil
  then show ?case by (simp add: render_def)
next
  case (Cons p ps)
  then have IH: "replace ''#month'' m (render y ''#month'' ''#day'' ps) =
                   render y m ''#day'' ps" by simp
  show ?case
  proof (cases p)
    case (Text s)
    with Cons.prems have "CHR ''#'' \<notin> set s" by simp
    then have "replace ''#month'' m (s @ render y ''#month'' ''#day'' ps) =
                 s @ replace ''#month'' m (render y ''#month'' ''#day'' ps)"
      by (rule replace_text) simp_all
    with Text IH show ?thesis by (simp add: render_Cons)
  next
    case Year
    from assms(2) have "replace ''#month'' m (y @ render y ''#month'' ''#day'' ps) =
                 y @ replace ''#month'' m (render y ''#month'' ''#day'' ps)"
      by (rule replace_text) simp_all
    with Year IH show ?thesis by (simp add: render_Cons)
  next
    case Month
    have "replace ''#month'' m (''#month'' @ render y ''#month'' ''#day'' ps) =
            m @ replace ''#month'' m (render y ''#month'' ''#day'' ps)"
      by (rule replace_hit) simp
    with Month IH show ?thesis by (simp add: render_Cons)
  next
    case Day
    with IH replace_other(3) [of m "render y ''#month'' ''#day'' ps"]
    show ?thesis by (simp add: render_Cons)
  qed
qed

lemma replace_day:
  assumes "\<forall>s. Text s \<in> set ps \<longrightarrow> CHR ''#'' \<notin> set s"
    and "CHR ''#'' \<notin> set y" and "CHR ''#'' \<notin> set m"
  shows "replace ''#day'' d (render y m ''#day'' ps) = render y m d ps"
  using assms(1)
proof (induction ps)
  case Nil
  then show ?case by (simp add: render_def)
next
  case (Cons p ps)
  then have IH: "replace ''#day'' d (render y m ''#day'' ps) = render y m d ps" by simp
  show ?case
  proof (cases p)
    case (Text s)
    with Cons.prems have "CHR ''#'' \<notin> set s" by simp
    then have "replace ''#day'' d (s @ render y m ''#day'' ps) =
                 s @ replace ''#day'' d (render y m ''#day'' ps)"
      by (rule replace_text) simp_all
    with Text IH show ?thesis by (simp add: render_Cons)
  next
    case Year
    from assms(2) have "replace ''#day'' d (y @ render y m ''#day'' ps) =
                 y @ replace ''#day'' d (render y m ''#day'' ps)"
      by (rule replace_text) simp_all
    with Year IH show ?thesis by (simp add: render_Cons)
  next
    case Month
    from assms(3) have "replace ''#day'' d (m @ render y m ''#day'' ps) =
                 m @ replace ''#day'' d (render y m ''#day'' ps)"
      by (rule replace_text) simp_all
    with Month IH show ?thesis by (simp add: render_Cons)
  next
    case Day
    have "replace ''#day'' d (''#day'' @ render y m ''#day'' ps) =
            d @ replace ''#day'' d (render y m ''#day'' ps)"
      by (rule replace_hit) simp
    with Day IH show ?thesis by (simp add: render_Cons)
  qed
qed

lemma gen_archive_page_url_of_template:
  assumes "\<forall>s. Text s \<in> set ps \<longrightarrow> CHR ''#'' \<notin> set s"
  shows "gen_archive_page_url_from_date dt (template ps) =
           render (format_0d 4 (year dt)) (format_0d 2 (month dt)) (format_0d 2 (day dt)) ps"
  by (simp add: gen_archive_page_url_from_date_def template_def replace_year [OF assms]
      replace_month [OF assms] replace_day [OF assms] no_hash_in_format_0d)

subsection \<open>Padding with zeros\<close>

lemma digit_of_table:
  assumes "k < 10"
  shows "''0123456789'' ! k \<in> set ''0123456789''"
    and "(of_char (''0123456789'' ! k) :: nat) - 48 = k"
proof -
  from assms show "''0123456789'' ! k \<in> set ''0123456789''" by (intro nth_mem) simp
  from assms have "k \<in> {0, 1, 2, 3, 4, 5, 6, 7, 8, 9}" by auto
  then show "(of_char (''0123456789'' ! k) :: nat) - 48 = k" by auto
qed

lemma decimal_snoc: "decimal (s @ [c]) = 10 * decimal s + (of_char c - 48)"
  by (simp add: decimal_def)

lemma decimal_digits: "decimal (digits n) = n"
proof (induction n rule: digits.induct)
  case (1 n)
  show ?case
  proof (cases "n < 10")
    case True
    then show ?thesis
      by (subst digits.simps) (simp add: decimal_def digit_of_table(2))
  next
    case False
    then have "decimal (digits (n div 10)) = n div 10" by (rule 1)
    moreover have "(of_char (''0123456789'' ! (n mod 10)) :: nat) - 48 = n mod 10"
      by (rule digit_of_table(2)) simp
    ultimately show ?thesis
      using False by (subst digits.simps) (simp add: decimal_snoc)
  qed
qed

lemma set_digits: "set (digits n) \<subseteq> set ''0123456789''"
proof (induction n rule: digits.induct)
  case (1 n)
  show ?case
  proof (cases "n < 10")
    case True
    with digit_of_table(1) [of n] show ?thesis by (subst digits.simps) simp
  next
    case False
    then have "set (digits (n div 10)) \<subseteq> set ''0123456789''" by (rule 1)
    moreover have "''0123456789'' ! (n mod 10) \<in> set ''0123456789''"
      by (rule digit_of_table(1)) simp
    ultimately show ?thesis using False by (subst digits.simps) simp
  qed
qed

lemma hd_digits: "0 < n \<Longrightarrow> hd (digits n) \<noteq> CHR ''0''"
proof (induction n rule: digits.induct)
  case (1 n)
  show ?case
  proof (cases "n < 10")
    case True
    with 1(2) have "n \<in> {1, 2, 3, 4, 5, 6, 7, 8, 9}" by auto
    then show ?thesis by (subst digits.simps) auto
  next
    case False
    then have "hd (digits (n div 10)) \<noteq> CHR ''0''" by (intro 1) simp_all
    with False show ?thesis by (subst digits.simps) (simp add: digits_not_Nil)
  qed
qed

lemma decimal_zeros: "decimal (replicate k CHR ''0'' @ s) = decimal s"
proof -
  have "foldl (\<lambda>a c. 10 * a + (of_char c - 48)) 0 (replicate k CHR ''0'') = (0 :: nat)"
    by (induction k) simp_all
  then show ?thesis by (simp add: decimal_def)
qed

lemma format_0d_of_nat:
  assumes "0 \<le> i"
  shows "format_0d w i = replicate (w - length (str_int i)) CHR ''0'' @ str_int i"
    and "length (format_0d w i) = max w (length (str_int i))"
    and "set (format_0d w i) \<subseteq> set ''0123456789''"
    and "decimal (format_0d w i) = nat i"
    and "decimal (str_int i) = nat i"
    and "i \<noteq> 0 \<longrightarrow> hd (str_int i) \<noteq> CHR ''0''"
proof -
  from assms show 1: "format_0d w i = replicate (w - length (str_int i)) CHR ''0'' @ str_int i"
    by (simp add: format_0d_def str_int_def)
  show "length (format_0d w i) = max w (length (str_int i))"
    by (simp add: 1)
  from assms set_digits [of "nat i"] show "set (format_0d w i) \<subseteq> set ''0123456789''"
    by (auto simp: format_0d_def)
  from assms show "decimal (format_0d w i) = nat i"
    by (simp add: format_0d_def decimal_zeros decimal_digits)
  from assms show "decimal (str_int i) = nat i"
    by (simp add: str_int_def decimal_digits)
  from assms hd_digits [of "nat i"] show "i \<noteq> 0 \<longrightarrow> hd (str_int i) \<noteq> CHR ''0''"
    by (simp add: str_int_def)
qed

lemma replicate_small: "replicate 2 c = [c, c]" "replicate 3 c = [c, c, c]"
  by (simp_all add: numeral_2_eq_2 numeral_3_eq_3)

subsection \<open>Some days of the calendar\<close>

lemma ord2ymd_examples:
  "ord2ymd 1 = (1, 1, 1)"
  "ord2ymd 737484 = (2020, 2, 29)"
  "ord2ymd 737790 = (2020, 12, 31)"
  "ord2ymd 3652059 = (9999, 12, 31)"
  by (simp_all add: ord2ymd_def Let_def DAYS_BEFORE_MONTH_def DAYS_IN_MONTH_def)

subsection \<open>The walk round by round\<close>

lemma rounds_None [simp]:
  "gen_article_urls_rounds k env c b st None n = (st, None, n)"
  by (cases k) simp_all

lemma rounds_Suc_Some:
  "gen_article_urls_rounds (Suc k) env c b st (Some u) n =
     gen_article_urls_rounds k env c b
       (foldl c (fst (archive_page_step env b st u n)) (fst (snd (archive_page_step env b st u n))))
       (snd (snd (archive_page_step env b st u n))) (n + 1)"
  by (simp add: Let_def)

lemma rounds_ended:
  assumes "fst (snd (gen_article_urls_rounds k env c b st (Some u) n)) = None"
  shows "gen_article_urls env c b st u n =
           Some (fst (gen_article_urls_rounds k env c b st (Some u) n))"
  using assms
proof (induction k arbitrary: st u n)
  case 0
  then show ?case by simp
next
  case (Suc k)
  let ?r = "archive_page_step env b st u n"
  let ?s = "foldl c (fst ?r) (fst (snd ?r))"
  show ?case
  proof (cases "snd (snd ?r)")
    case None
    then show ?thesis by (subst walk_step) (simp add: Let_def)
  next
    case (Some v)
    with Suc.prems have "fst (snd (gen_article_urls_rounds k env c b ?s (Some v) (n + 1))) = None"
      by (simp add: Let_def)
    then have "gen_article_urls env c b ?s v (n + 1) =
                 Some (fst (gen_article_urls_rounds k env c b ?s (Some v) (n + 1)))"
      by (rule Suc.IH)
    with Some show ?thesis by (subst walk_step) (simp add: Let_def)
  qed
qed

lemma walk_rounds:
  fixes env :: "('a, 'b) env"
  assumes run: "gen_article_urls env consume base st u n = Some st'"
  shows "\<exists>k m. gen_article_urls_rounds k env consume base st (Some u) n = (st', None, m)"
proof -
  let ?Q = "\<lambda>(e :: ('a, 'b) env) c b s (v :: url) (k :: int) s'.
              \<exists>j m. gen_article_urls_rounds j e c b s (Some v) k = (s', None, m)"
  have "?Q env consume base st u n st'"
  proof (rule gen_article_urls.raw_induct [where P = ?Q, OF _ run])
    fix f and e :: "('a, 'b) env" and c b s and v :: url and k :: int and s'
    assume IH: "\<And>e c b s v k y. f e c b s v k = Some y \<Longrightarrow> ?Q e c b s v k y"
      and body: "(let r = archive_page_step e b s v k;
                      st' = foldl c (fst r) (fst (snd r))
                  in case snd (snd r) of None \<Rightarrow> Some st'
                     | Some next_url \<Rightarrow> f e c b st' next_url (k + 1)) = Some s'"
    let ?r = "archive_page_step e b s v k"
    let ?s = "foldl c (fst ?r) (fst (snd ?r))"
    show "?Q e c b s v k s'"
    proof (cases "snd (snd ?r)")
      case None
      with body have "s' = ?s" by (simp add: Let_def)
      with None have "gen_article_urls_rounds (Suc 0) e c b s (Some v) k = (s', None, k + 1)"
        by (simp add: Let_def)
      then show ?thesis by blast
    next
      case (Some nx)
      with body have "f e c b ?s nx (k + 1) = Some s'" by (simp add: Let_def)
      from IH [OF this] obtain j m where
        "gen_article_urls_rounds j e c b ?s (Some nx) (k + 1) = (s', None, m)" by blast
      with Some have "gen_article_urls_rounds (Suc j) e c b s (Some v) k = (s', None, m)"
        by (simp add: Let_def)
      then show ?thesis by blast
    qed
  qed
  then show ?thesis .
qed

lemma walk_iff_rounds:
  "gen_article_urls env consume base st u n = Some st' \<longleftrightarrow>
     (\<exists>k m. gen_article_urls_rounds k env consume base st (Some u) n = (st', None, m))"
proof
  assume "gen_article_urls env consume base st u n = Some st'"
  then show "\<exists>k m. gen_article_urls_rounds k env consume base st (Some u) n = (st', None, m)"
    by (rule walk_rounds)
next
  assume "\<exists>k m. gen_article_urls_rounds k env consume base st (Some u) n = (st', None, m)"
  then obtain k m where
    r: "gen_article_urls_rounds k env consume base st (Some u) n = (st', None, m)" by blast
  then have "fst (snd (gen_article_urls_rounds k env consume base st (Some u) n)) = None"
    by simp
  then have "gen_article_urls env consume base st u n =
               Some (fst (gen_article_urls_rounds k env consume base st (Some u) n))"
    by (rule rounds_ended)
  with r show "gen_article_urls env consume base st u n = Some st'" by simp
qed

lemma rounds_fetches:
  assumes mode: "\<not> next_url_by_regex (settings env)"
  shows "\<exists>j\<le>k. archive_fetches
           (fst (gen_article_urls_rounds k env (process_url env) base st (Some u) n)) =
         archive_fetches st @ take j (u # map (\<lambda>i. base @ str_int (n + int i)) [0 ..< k])"
proof (induction k arbitrary: st u n)
  case 0
  then show ?case by simp
next
  case (Suc k)
  let ?r = "archive_page_step env base st u n"
  let ?s = "foldl (process_url env) (fst ?r) (fst (snd ?r))"
  have fs: "archive_fetches ?s = archive_fetches st @ [u]" by simp
  from next_page_without_regex [OF mode, of base st u n] show ?case
  proof
    assume "snd (snd ?r) = None"
    then have "archive_fetches
        (fst (gen_article_urls_rounds (Suc k) env (process_url env) base st (Some u) n)) =
        archive_fetches st @ take (Suc 0) (u # map (\<lambda>i. base @ str_int (n + int i)) [0 ..< Suc k])"
      by (simp only: rounds_Suc_Some rounds_None fst_conv fs) simp
    moreover have "Suc 0 \<le> Suc k" by simp
    ultimately show ?thesis by blast
  next
    assume nx: "snd (snd ?r) = Some (base @ str_int n)"
    from Suc.IH [of ?s "base @ str_int n" "n + 1"] obtain j where j: "j \<le> k"
      and f: "archive_fetches (fst (gen_article_urls_rounds k env (process_url env) base ?s
                 (Some (base @ str_int n)) (n + 1))) =
              archive_fetches ?s @
              take j ((base @ str_int n) # map (\<lambda>i. base @ str_int (n + 1 + int i)) [0 ..< k])"
      by blast
    have "archive_fetches
        (fst (gen_article_urls_rounds (Suc k) env (process_url env) base st (Some u) n)) =
        archive_fetches st @
        take (Suc j) (u # map (\<lambda>i. base @ str_int (n + int i)) [0 ..< Suc k])"
      by (simp only: rounds_Suc_Some nx f fs map_page_urls_Suc) simp
    moreover from j have "Suc j \<le> Suc k" by simp
    ultimately show ?thesis by blast
  qed
qed

lemma rounds_fetches_distinct:
  assumes mode: "\<not> next_url_by_regex (settings env)"
  shows "distinct (drop (length (archive_fetches st))
           (archive_fetches (fst (gen_article_urls_rounds k env (process_url env) base st
              (Some base) n))))"
proof -
  from rounds_fetches [OF mode, of k base st base n] obtain j where
    "archive_fetches (fst (gen_article_urls_rounds k env (process_url env) base st
        (Some base) n)) =
     archive_fetches st @ take j (base # map (\<lambda>i. base @ str_int (n + int i)) [0 ..< k])"
    by blast
  moreover have "distinct (take j (base # map (\<lambda>i. base @ str_int (n + int i)) [0 ..< k]))"
    by (rule distinct_take) (rule distinct_page_urls)
  ultimately show ?thesis by simp
qed

subsection \<open>Next-page links that never lead back\<close>

lemma next_page_with_regex:
  assumes "next_url_by_regex (settings env)"
    and "archive_download_url env (world st) u = (Some h, w')"
  shows "snd (snd (archive_page_step env base st u n)) =
           extract_next_page_url env h (settings env)"
  using assms
  by (simp add: archive_page_step_def Let_def crawler_extract_next_page_url_def)

lemma next_page_with_regex_Some:
  assumes "next_url_by_regex (settings env)"
    and "snd (snd (archive_page_step env base st u n)) = Some v"
  shows "\<exists>h w'. archive_download_url env (world st) u = (Some h, w') \<and>
           extract_next_page_url env h (settings env) = Some v"
proof (cases "fst (archive_download_url env (world st) u)")
  case None
  with assms(2) show ?thesis by (simp add: archive_page_step_def Let_def)
next
  case (Some h)
  then have dl: "archive_download_url env (world st) u =
                   (Some h, snd (archive_download_url env (world st) u))"
    by (metis prod.collapse)
  from next_page_with_regex [OF assms(1) dl, of base n] assms(2)
  have "extract_next_page_url env h (settings env) = Some v" by simp
  with dl show ?thesis by blast
qed

lemma rounds_down_the_ranks:
  fixes rank :: "url \<Rightarrow> nat"
  assumes mode: "next_url_by_regex (settings env)"
    and down: "\<forall>w u h w' v. archive_download_url env w u = (Some h, w') \<and>
                 extract_next_page_url env h (settings env) = Some v \<longrightarrow> rank v < rank u"
  shows "\<exists>us. archive_fetches
           (fst (gen_article_urls_rounds (Suc k) env (process_url env) base st (Some u) n)) =
           archive_fetches st @ u # us \<and>
         (\<forall>v\<in>set us. rank v < rank u) \<and> distinct (u # us) \<and> length us \<le> rank u \<and>
         (rank u \<le> k \<longrightarrow>
            fst (snd (gen_article_urls_rounds (Suc k) env (process_url env) base st (Some u) n))
              = None)"
proof (induction k arbitrary: st u n)
  case 0
  let ?r = "archive_page_step env base st u n"
  have "archive_fetches
      (fst (gen_article_urls_rounds (Suc 0) env (process_url env) base st (Some u) n)) =
      archive_fetches st @ u # []"
    by (simp add: Let_def)
  moreover have "rank u \<le> 0 \<longrightarrow>
      fst (snd (gen_article_urls_rounds (Suc 0) env (process_url env) base st (Some u) n)) = None"
  proof
    assume z: "rank u \<le> 0"
    have "snd (snd ?r) = None"
    proof (cases "snd (snd ?r)")
      case None
      then show ?thesis .
    next
      case (Some v)
      from next_page_with_regex_Some [OF mode Some] down have "rank v < rank u" by blast
      with z show ?thesis by simp
    qed
    then show "fst (snd (gen_article_urls_rounds (Suc 0) env (process_url env) base st
                 (Some u) n)) = None"
      by (simp add: Let_def)
  qed
  ultimately show ?case by (intro exI [where x = "[]"]) simp
next
  case (Suc k)
  let ?r = "archive_page_step env base st u n"
  let ?s = "foldl (process_url env) (fst ?r) (fst (snd ?r))"
  have fs: "archive_fetches ?s = archive_fetches st @ [u]" by simp
  show ?case
  proof (cases "snd (snd ?r)")
    case None
    then have "gen_article_urls_rounds (Suc (Suc k)) env (process_url env) base st (Some u) n =
                 (?s, None, n + 1)"
      by (subst rounds_Suc_Some) simp
    with fs show ?thesis by (intro exI [where x = "[]"]) simp
  next
    case (Some v)
    from next_page_with_regex_Some [OF mode Some] down have v: "rank v < rank u" by blast
    from Some have eq: "gen_article_urls_rounds (Suc (Suc k)) env (process_url env) base st
                          (Some u) n =
                        gen_article_urls_rounds (Suc k) env (process_url env) base ?s
                          (Some v) (n + 1)"
      by (subst rounds_Suc_Some) simp
    from Suc.IH [of ?s v "n + 1"] obtain us where
      f: "archive_fetches (fst (gen_article_urls_rounds (Suc k) env (process_url env) base ?s
            (Some v) (n + 1))) = archive_fetches ?s @ v # us"
      and r: "\<forall>x\<in>set us. rank x < rank v"
      and d: "distinct (v # us)"
      and l: "length us \<le> rank v"
      and e: "rank v \<le> k \<longrightarrow>
            fst (snd (gen_article_urls_rounds (Suc k) env (process_url env) base ?s
              (Some v) (n + 1))) = None"
      by blast
    from f fs have 1: "archive_fetches (fst (gen_article_urls_rounds (Suc (Suc k)) env
        (process_url env) base st (Some u) n)) = archive_fetches st @ u # (v # us)"
      by (simp only: eq) simp
    from r v have 2: "\<forall>x\<in>set (v # us). rank x < rank u" by auto
    from 2 d have 3: "distinct (u # (v # us))" by auto
    from l v have 4: "length (v # us) \<le> rank u" by simp
    from e v have 5: "rank u \<le> Suc k \<longrightarrow>
        fst (snd (gen_article_urls_rounds (Suc (Suc k)) env (process_url env) base st
          (Some u) n)) = None"
      by (simp only: eq) simp
    from 1 2 3 4 5 show ?thesis by blast
  qed
qed

lemma walk_down_the_ranks:
  fixes rank :: "url \<Rightarrow> nat"
  assumes mode: "next_url_by_regex (settings env)"
    and down: "\<forall>w u h w' v. archive_download_url env w u = (Some h, w') \<and>
                 extract_next_page_url env h (settings env) = Some v \<longrightarrow> rank v < rank u"
  shows "\<exists>st' us. gen_article_urls env (process_url env) base st u n = Some st' \<and>
           archive_fetches st' = archive_fetches st @ u # us \<and>
           distinct (u # us) \<and> length us \<le> rank u \<and> (\<forall>v\<in>set us. rank v < rank u)"
proof -
  let ?R = "gen_article_urls_rounds (Suc (rank u)) env (process_url env) base st (Some u) n"
  from rounds_down_the_ranks [OF mode down, of "rank u" base st u n] obtain us where
    f: "archive_fetches (fst ?R) = archive_fetches st @ u # us"
    and r: "\<forall>v\<in>set us. rank v < rank u" and d: "distinct (u # us)"
    and l: "length us \<le> rank u" and e: "fst (snd ?R) = None"
    by blast
  from e have "gen_article_urls env (process_url env) base st u n = Some (fst ?R)"
    by (rule rounds_ended)
  with f r d l show ?thesis by blast
qed

lemma rounds_down_the_ranks_distinct:
  fixes rank :: "url \<Rightarrow> nat"
  assumes mode: "next_url_by_regex (settings env)"
    and down: "\<forall>w u h w' v. archive_download_url env w u = (Some h, w') \<and>
                 extract_next_page_url env h (settings env) = Some v \<longrightarrow> rank v < rank u"
  shows "distinct (drop (length (archive_fetches st))
           (archive_fetches (fst (gen_article_urls_rounds k env (process_url env) base st
              (Some u) n))))"
proof (cases k)
  case 0
  then show ?thesis by simp
next
  case (Suc j)
  from rounds_down_the_ranks [OF mode down, of j base st u n] obtain us where
    "archive_fetches (fst (gen_article_urls_rounds (Suc j) env (process_url env) base st
        (Some u) n)) = archive_fetches st @ u # us" and "distinct (u # us)"
    by blast
  with Suc show ?thesis by simp
qed

lemma site_next_links_go_down:
  "\<forall>w u h w' v. archive_download_url site w u = (Some h, w') \<and>
     extract_next_page_url site h (settings site) = Some v \<longrightarrow>
     (if v = ''A'' then 1 else 0 :: nat) < (if u = ''A'' then 1 else 0)"
  by (auto simp: site_def split: if_splits)

lemma flaky_walk:
  "gen_article_urls_from_archive_page_url_including_subpages flaky_site
     (process_url flaky_site) fresh ''A'' =
   Some (fresh\<lparr>good_urls := {''A''}, problematic_urls := {''A''}, world := 2,
           archive_fetches := [''A'', ''A'']\<rparr>)"
  by (simp add: gen_article_urls_from_archive_page_url_including_subpages_def
      flaky_site_def site_settings_def fresh_def archive_page_step_def
      crawler_extract_next_page_url_def Let_def gen_article_urls.simps)

lemma cyclic_rounds:
  "gen_article_urls_rounds 2 cyclic_site (process_url cyclic_site) ''A'' fresh (Some ''A'') 1 =
     (fresh\<lparr>good_urls := {''A''}, world := 2, archive_fetches := [''A'', ''A'']\<rparr>,
      Some ''A'', 3)"
  by (simp add: numeral_2_eq_2 cyclic_site_def flaky_site_def site_settings_def fresh_def
      archive_page_step_def crawler_extract_next_page_url_def Let_def)
section \<open>Draining an empty set of new URLs\<close>

text \<open>
  C9. When \<open>new_urls\<close> is empty, \<open>download_gathered_new_urls\<close> returns at once and
  leaves the whole state as it was: every URL set, and the traces of both downloaders,
  so no download is made.
\<close>

theorem download_gathered_new_urls_empty:
  "new_urls st = {} \<Longrightarrow> download_gathered_new_urls env st = Some st"
  by (simp add: download_gathered_new_urls_def recheck_new_urls_def while_new_urls.simps)

theorem download_gathered_new_urls_empty_witness:
  "new_urls fresh = {} \<and> download_gathered_new_urls site fresh = Some fresh"
  using download_gathered_new_urls_empty [of fresh site]
  by (simp add: fresh_def)

section \<open>The known article URLs at construction\<close>

text \<open>
  C10. \<open>NewsArchiveCrawler.__init__\<close> fills \<open>known_article_urls\<close> with the stripped lines
  of the file named by \<open>known_bad_urls\<close> exactly when the argument \<open>known_article_urls\<close>
  is not \<open>None\<close>, and with nothing otherwise. The value of the argument is not looked
  at: any two values that are not \<open>None\<close> give the same result. With
  \<open>known_article_urls\<close> given and \<open>known_bad_urls = None\<close> the constructor fails, as
  \<open>open(None)\<close> raises \<open>TypeError\<close>; with a file that does not exist it fails too.
  Stripping removes every leading and trailing character for which \<open>str.isspace\<close>
  holds (code points 9 to 13, 28 to 32, 133 and 160) and keeps what lies between the
  first and the last other character.
\<close>

theorem NewsArchiveCrawler_init_known_article_urls:
  "NewsArchiveCrawler_init fs (None :: 'a option) known_bad_urls = Inr ({}, {}, {}) \<and>
   (\<forall>(a :: 'a) f ls. fs f = Some ls \<longrightarrow>
      NewsArchiveCrawler_init fs (Some a) (Some f) = Inr ({}, {}, strip ` set ls)) \<and>
   (\<forall>(a :: 'a) f. fs f = None \<longrightarrow>
      NewsArchiveCrawler_init fs (Some a) (Some f) = Inl FileNotFoundError) \<and>
   (\<forall>a :: 'a. NewsArchiveCrawler_init fs (Some a) None = Inl TypeError) \<and>
   (\<forall>(a :: 'a) (b :: 'b).
      NewsArchiveCrawler_init fs (Some a) known_bad_urls =
      NewsArchiveCrawler_init fs (Some b) known_bad_urls) \<and>
   (\<forall>c. is_space c \<longleftrightarrow>
      (of_char c :: nat) \<in> {9, 10, 11, 12, 13, 28, 29, 30, 31, 32, 133, 160}) \<and>
   (\<forall>a b c. (\<forall>x\<in>set a. is_space x) \<longrightarrow> (\<forall>x\<in>set c. is_space x) \<longrightarrow>
      (b = [] \<or> \<not> is_space (hd b) \<and> \<not> is_space (last b)) \<longrightarrow>
      strip (a @ b @ c) = b)"
proof -
  have "NewsArchiveCrawler_init fs (None :: 'a option) known_bad_urls = Inr ({}, {}, {}) \<and>
   (\<forall>(a :: 'a) f ls. fs f = Some ls \<longrightarrow>
      NewsArchiveCrawler_init fs (Some a) (Some f) = Inr ({}, {}, strip ` set ls)) \<and>
   (\<forall>(a :: 'a) f. fs f = None \<longrightarrow>
      NewsArchiveCrawler_init fs (Some a) (Some f) = Inl FileNotFoundError) \<and>
   (\<forall>a :: 'a. NewsArchiveCrawler_init fs (Some a) None = Inl TypeError) \<and>
   (\<forall>(a :: 'a) (b :: 'b).
      NewsArchiveCrawler_init fs (Some a) known_bad_urls =
      NewsArchiveCrawler_init fs (Some b) known_bad_urls)"
    by (auto simp: NewsArchiveCrawler_init_def open_lines_def split: option.splits sum.splits)
  moreover have "\<forall>c. is_space c \<longleftrightarrow>
      (of_char c :: nat) \<in> {9, 10, 11, 12, 13, 28, 29, 30, 31, 32, 133, 160}"
    using is_space_codes by blast
  moreover have "\<forall>a b c. (\<forall>x\<in>set a. is_space x) \<longrightarrow> (\<forall>x\<in>set c. is_space x) \<longrightarrow>
      (b = [] \<or> \<not> is_space (hd b) \<and> \<not> is_space (last b)) \<longrightarrow>
      strip (a @ b @ c) = b"
    using strip_core by blast
  ultimately show ?thesis by (intro conjI) (elim conjE, assumption)+
qed

theorem NewsArchiveCrawler_init_known_article_urls_witness:
  "NewsArchiveCrawler_init
     [''bad.txt'' \<mapsto> [''u1'' @ [CHR 0x0A], '' u2 '' @ [CHR 0x0A],
                       [CHR 0x09, CHR 0x85] @ ''u3'' @ [CHR 0xA0, CHR 0x0D, CHR 0x0A]]]
     (Some ()) (Some ''bad.txt'') = Inr ({}, {}, {''u1'', ''u2'', ''u3''}) \<and>
   NewsArchiveCrawler_init [''bad.txt'' \<mapsto> [''u1'' @ [CHR 0x0A]]] (Some ()) None
     = Inl TypeError \<and>
   NewsArchiveCrawler_init [''bad.txt'' \<mapsto> [''u1'' @ [CHR 0x0A]]] (Some ())
     (Some ''other.txt'') = Inl FileNotFoundError \<and>
   NewsArchiveCrawler_init [''bad.txt'' \<mapsto> [''u1'' @ [CHR 0x0A]]] (None :: unit option)
     (Some ''bad.txt'') = Inr ({}, {}, {})"
proof -
  note T = NewsArchiveCrawler_init_known_article_urls [where ?'a = unit and ?'b = unit]
  note A = T [where fs = "[''bad.txt'' \<mapsto> [''u1'' @ [CHR 0x0A], '' u2 '' @ [CHR 0x0A],
                       [CHR 0x09, CHR 0x85] @ ''u3'' @ [CHR 0xA0, CHR 0x0D, CHR 0x0A]]]"]
  note B = T [where fs = "[''bad.txt'' \<mapsto> [''u1'' @ [CHR 0x0A]]]"
                and known_bad_urls = "Some ''bad.txt''"]
  from A have 1: "NewsArchiveCrawler_init
     [''bad.txt'' \<mapsto> [''u1'' @ [CHR 0x0A], '' u2 '' @ [CHR 0x0A],
                       [CHR 0x09, CHR 0x85] @ ''u3'' @ [CHR 0xA0, CHR 0x0D, CHR 0x0A]]]
     (Some ()) (Some ''bad.txt'') = Inr ({}, {}, {''u1'', ''u2'', ''u3''})"
    by (simp add: strip_def is_space_def)
  from B have 2: "NewsArchiveCrawler_init [''bad.txt'' \<mapsto> [''u1'' @ [CHR 0x0A]]] (Some ()) None
     = Inl TypeError"
    by simp
  from B have 3: "NewsArchiveCrawler_init [''bad.txt'' \<mapsto> [''u1'' @ [CHR 0x0A]]] (Some ())
     (Some ''other.txt'') = Inl FileNotFoundError"
    by simp
  from B have 4: "NewsArchiveCrawler_init [''bad.txt'' \<mapsto> [''u1'' @ [CHR 0x0A]]]
     (None :: unit option) (Some ''bad.txt'') = Inr ({}, {}, {})"
    by simp
  from 1 2 3 4 show ?thesis by simp
qed

section \<open>Articles outside the date window\<close>

text \<open>
  C7. When an article that is not yet classified is downloaded and its date is missing,
  earlier than \<open>date_from\<close> or later than \<open>date_until\<close> (a date equal to a bound is
  inside), \<open>article_to_corpus\<close> is not called for it. The URL becomes a good article URL,
  so any later round for the same URL is skipped without a download or a conversion. The
  links of the page are admitted all the same: \<open>new_urls\<close> gains every extracted URL that
  is in none of the five sets, and the outcome is the same whatever the date extractor
  returns.
\<close>

theorem date_filter_miss:
  assumes nd: "url \<notin> good_article_urls st" "url \<notin> problematic_article_urls st"
    and dl: "article_download_url env (world st) url = (Some html, w')"
    and miss: "case extract_article_date env html (settings env) of
                 None \<Rightarrow> True
               | Some d \<Rightarrow> d < date_from (settings env) \<or> date_until (settings env) < d"
  shows "corpus (process_url env st url) = corpus st \<and>
         url \<in> good_article_urls (process_url env st url) \<and>
         (\<forall>s. url \<in> good_article_urls s \<longrightarrow>
            corpus (process_url env s url) = corpus s \<and>
            article_fetches (process_url env s url) = article_fetches s) \<and>
         new_urls (process_url env st url) =
           new_urls st \<union>
           {e \<in> set (extract_article_urls_from_page env html (settings env)).
              unclassified (st\<lparr>good_article_urls := insert url (good_article_urls st)\<rparr>) e} \<and>
         (\<forall>f. new_urls (process_url (env\<lparr>extract_article_date := f\<rparr>) st url) =
              new_urls (process_url env st url))"
proof -
  from miss have bad:
    "\<not> article_date_is_ok (settings env) (extract_article_date env html (settings env))"
    by (auto simp: article_date_is_ok_def split: option.splits)
  have 1: "corpus (process_url env st url) = corpus st"
    using process_url_downloaded(6) [OF nd dl] bad by simp
  have 2: "url \<in> good_article_urls (process_url env st url)"
    using process_url_downloaded(1) [OF nd dl] by simp
  have 3: "\<forall>s. url \<in> good_article_urls s \<longrightarrow>
            corpus (process_url env s url) = corpus s \<and>
            article_fetches (process_url env s url) = article_fetches s"
    by (simp add: process_url_duplicate)
  have 5: "\<forall>f. new_urls (process_url (env\<lparr>extract_article_date := f\<rparr>) st url) =
              new_urls (process_url env st url)"
  proof
    fix f
    have dl': "article_download_url (env\<lparr>extract_article_date := f\<rparr>) (world st) url =
                 (Some html, w')"
      using dl by simp
    show "new_urls (process_url (env\<lparr>extract_article_date := f\<rparr>) st url) =
            new_urls (process_url env st url)"
      using process_url_downloaded(5) [OF nd dl'] process_url_downloaded(5) [OF nd dl]
      by simp
  qed
  from 1 2 3 5 process_url_downloaded(5) [OF nd dl] show ?thesis by blast
qed

theorem date_filter_miss_witness:
  "corpus (process_url site fresh ''x'') = [] \<and>
   new_urls (process_url site fresh ''x'') = {''B'', ''a'', ''b''} \<and>
   ''x'' \<in> good_article_urls (process_url site fresh ''x'')"
proof -
  have a: "''x'' \<notin> good_article_urls fresh" "''x'' \<notin> problematic_article_urls fresh"
    by (simp_all add: fresh_def)
  have b: "article_download_url site (world fresh) ''x'' = (Some ''x'', 1)"
    by (simp add: site_def fresh_def)
  have c: "case extract_article_date site ''x'' (settings site) of
             None \<Rightarrow> True
           | Some d \<Rightarrow> d < date_from (settings site) \<or> date_until (settings site) < d"
    by (simp add: site_def)
  have "{e \<in> set (extract_article_urls_from_page site ''x'' (settings site)).
          unclassified (fresh\<lparr>good_article_urls := insert ''x'' (good_article_urls fresh)\<rparr>) e}
        = {''B'', ''a'', ''b''}"
    by (auto simp: site_def fresh_def unclassified_def)
  with date_filter_miss [OF a b c] show ?thesis
    by (simp add: fresh_def)
qed

section \<open>The one error that is raised\<close>

text \<open>
  C6. The list of archive URLs is empty exactly when date mode is off or spans no day,
  and id mode is off. \<open>url_iterator\<close> raises \<open>ValueError\<close> exactly in that case, and so
  does the whole run \<open>download_and_extract_all_articles\<close>; the state is then the one the
  run started with, so nothing was downloaded. With a non-empty list no error comes out
  of the run. A failed download is not an error of the run: the URL goes into the
  problematic set of its kind (and, for an article, into the log), and the run goes on
  with the state returned.
\<close>

theorem url_iterator_raises:
  "(archive_page_urls (settings env) = [] \<longleftrightarrow>
      (\<not> archive_page_urls_by_date (settings env) \<or>
         date_until (settings env) < date_from (settings env)) \<and>
      \<not> archive_page_urls_by_id (settings env)) \<and>
   (archive_page_urls (settings env) = [] \<longrightarrow>
      url_iterator env consume st = Some (Inl (ValueError, st)) \<and>
      download_and_extract_all_articles env st = Some (Inl (ValueError, st))) \<and>
   (archive_page_urls (settings env) \<noteq> [] \<longrightarrow>
      (\<forall>e s. url_iterator env consume st \<noteq> Some (Inl (e, s)) \<and>
             download_and_extract_all_articles env st \<noteq> Some (Inl (e, s)))) \<and>
   (\<forall>e s. download_and_extract_all_articles env st = Some (Inl (e, s)) \<longrightarrow>
      e = ValueError \<and> s = st \<and> archive_page_urls (settings env) = []) \<and>
   (\<forall>s u w'. u \<notin> good_article_urls s \<longrightarrow> u \<notin> problematic_article_urls s \<longrightarrow>
      article_download_url env (world s) u = (None, w') \<longrightarrow>
      process_url env s u =
        s\<lparr>world := w', article_fetches := article_fetches s @ [u],
          logged := logged s @ [(ERROR, u, DownloadFailed)],
          problematic_article_urls := insert u (problematic_article_urls s)\<rparr>) \<and>
   (\<forall>s base u n w'. archive_download_url env (world s) u = (None, w') \<longrightarrow>
      archive_page_step env base s u n =
        (s\<lparr>world := w', archive_fetches := archive_fetches s @ [u],
           problematic_urls := insert u (problematic_urls s)\<rparr>, [], None))"
proof -
  have 1: "archive_page_urls (settings env) = [] \<longrightarrow>
      url_iterator env consume st = Some (Inl (ValueError, st)) \<and>
      download_and_extract_all_articles env st = Some (Inl (ValueError, st))"
    by (simp add: url_iterator_def download_and_extract_all_articles_def)
  have 2: "archive_page_urls (settings env) \<noteq> [] \<longrightarrow>
      (\<forall>e s. url_iterator env consume st \<noteq> Some (Inl (e, s)) \<and>
             download_and_extract_all_articles env st \<noteq> Some (Inl (e, s)))"
    by (auto simp: url_iterator_def download_and_extract_all_articles_def Let_def
        split: option.splits sum.splits)
  have 3: "\<forall>e s. download_and_extract_all_articles env st = Some (Inl (e, s)) \<longrightarrow>
      e = ValueError \<and> s = st \<and> archive_page_urls (settings env) = []"
    using 1 2 by (cases "archive_page_urls (settings env) = []") auto
  have 4: "\<forall>s u w'. u \<notin> good_article_urls s \<longrightarrow> u \<notin> problematic_article_urls s \<longrightarrow>
      article_download_url env (world s) u = (None, w') \<longrightarrow>
      process_url env s u =
        s\<lparr>world := w', article_fetches := article_fetches s @ [u],
          logged := logged s @ [(ERROR, u, DownloadFailed)],
          problematic_article_urls := insert u (problematic_article_urls s)\<rparr>"
    by (simp add: process_url_failed)
  have 5: "\<forall>s base u n w'. archive_download_url env (world s) u = (None, w') \<longrightarrow>
      archive_page_step env base s u n =
        (s\<lparr>world := w', archive_fetches := archive_fetches s @ [u],
           problematic_urls := insert u (problematic_urls s)\<rparr>, [], None)"
    by (simp add: archive_page_step_def Let_def)
  from archive_page_urls_Nil [of "settings env"] 1 2 3 4 5 show ?thesis by blast
qed

theorem url_iterator_raises_witness:
  "archive_page_urls (settings no_mode_site) = [] \<and>
   download_and_extract_all_articles no_mode_site fresh = Some (Inl (ValueError, fresh)) \<and>
   archive_page_urls (settings site) = [''A''] \<and>
   download_and_extract_all_articles site fresh \<noteq> Some (Inl (ValueError, fresh)) \<and>
   process_url site fresh ''q'' =
     fresh\<lparr>world := 1, article_fetches := [''q''],
            logged := [(ERROR, ''q'', DownloadFailed)],
            problematic_article_urls := {''q''}\<rparr>"
proof -
  have a: "archive_page_urls (settings no_mode_site) = []"
    by (simp add: no_mode_site_def site_settings_def archive_page_urls_def)
  have b: "archive_page_urls (settings site) = [''A'']"
    by (simp add: site_def site_settings_def archive_page_urls_def)
  have c: "''q'' \<notin> good_article_urls fresh" "''q'' \<notin> problematic_article_urls fresh"
    "article_download_url site (world fresh) ''q'' = (None, 1)"
    by (simp_all add: site_def fresh_def)
  from url_iterator_raises [of no_mode_site "process_url no_mode_site" fresh]
    url_iterator_raises [of site "process_url site" fresh] a b c
  show ?thesis by (simp add: fresh_def)
qed

section \<open>The next page by page number\<close>

text \<open>
  C3. With \<open>next_url_by_regex\<close> off and \<open>next_url_by_pagenum\<close> on,
  \<open>_extract_next_page_url\<close> returns the base URL followed by the page number exactly when
  the page gave at least one article URL, and the set of known article URLs is empty or
  shares more than \<open>same_article_url_threshold\<close> URLs with the page, and \<open>max_pagenum\<close> is
  \<open>None\<close> or above the page number; otherwise it returns \<open>None\<close>. With \<open>min_pagenum = 1\<close>,
  \<open>max_pagenum = 3\<close>, no known article URLs, and every download succeeding with at least
  one article URL, the walk from a base URL ends after exactly three downloads: the base
  URL, the base URL with \<open>1\<close> and the base URL with \<open>2\<close>.
\<close>

theorem next_page_url_by_pagenum:
  "(\<not> use_regex \<longrightarrow> use_pagenum \<longrightarrow> finite (known_article_urls st) \<longrightarrow>
      crawler_extract_next_page_url env st html base arts page_num maxp use_regex
        use_pagenum thr =
      (if arts \<noteq> [] \<and>
          (known_article_urls st = {} \<or>
           thr < int (card (known_article_urls st \<inter> set arts))) \<and>
          (maxp = None \<or> (\<exists>m. maxp = Some m \<and> page_num < m))
       then Some (base @ str_int page_num) else None)) \<and>
   (\<not> next_url_by_regex (settings env) \<longrightarrow> next_url_by_pagenum (settings env) \<longrightarrow>
    min_pagenum (settings env) = 1 \<longrightarrow> max_pagenum (settings env) = Some 3 \<longrightarrow>
    known_article_urls st = {} \<longrightarrow>
    (\<forall>w u. \<exists>h w'. archive_download_url env w u = (Some h, w') \<and>
              extract_article_urls_from_page env h (settings env) \<noteq> []) \<longrightarrow>
    (\<exists>st'. gen_article_urls_from_archive_page_url_including_subpages env (process_url env)
              st base = Some st' \<and>
           archive_fetches st' = archive_fetches st @ [base, base @ ''1'', base @ ''2'']))"
proof (intro conjI impI)
  assume "\<not> use_regex" "use_pagenum" "finite (known_article_urls st)"
  then show "crawler_extract_next_page_url env st html base arts page_num maxp use_regex
        use_pagenum thr =
      (if arts \<noteq> [] \<and>
          (known_article_urls st = {} \<or>
           thr < int (card (known_article_urls st \<inter> set arts))) \<and>
          (maxp = None \<or> (\<exists>m. maxp = Some m \<and> page_num < m))
       then Some (base @ str_int page_num) else None)"
    by (rule next_page_by_pagenum)
next
  assume mode: "\<not> next_url_by_regex (settings env)" "next_url_by_pagenum (settings env)"
    and minp: "min_pagenum (settings env) = 1" and maxp: "max_pagenum (settings env) = Some 3"
    and known: "known_article_urls st = {}"
    and pages: "\<forall>w u. \<exists>h w'. archive_download_url env w u = (Some h, w') \<and>
              extract_article_urls_from_page env h (settings env) \<noteq> []"
  let ?walk = "gen_article_urls env (process_url env) base"
  define step where "step s u n = archive_page_step env base s u n" for s u n
  define after where
    "after s u n = foldl (process_url env) (fst (step s u n)) (fst (snd (step s u n)))" for s u n
  have nxt: "snd (snd (step s u n)) = (if n < 3 then Some (base @ str_int n) else None)"
    if "known_article_urls s = {}" for s u n
  proof -
    from pages obtain h w' where "archive_download_url env (world s) u = (Some h, w')"
      and "extract_article_urls_from_page env h (settings env) \<noteq> []" by blast
    from archive_page_step_pagenum(1) [OF mode that this] maxp show ?thesis
      by (simp add: step_def)
  qed
  have kn: "known_article_urls (after s u n) = known_article_urls s" for s u n
    by (simp add: after_def step_def)
  have fe: "archive_fetches (after s u n) = archive_fetches s @ [u]" for s u n
    by (simp add: after_def step_def)
  have unfold: "?walk s u n =
      (case snd (snd (step s u n)) of None \<Rightarrow> Some (after s u n)
       | Some next_url \<Rightarrow> ?walk (after s u n) next_url (n + 1))" for s u n
    unfolding step_def after_def by (rule walk_step)
  let ?s1 = "after st base 1"
  let ?s2 = "after ?s1 (base @ ''1'') 2"
  let ?s3 = "after ?s2 (base @ ''2'') 3"
  have k1: "known_article_urls ?s1 = {}" using known by (simp add: kn)
  have k2: "known_article_urls ?s2 = {}" using k1 by (simp add: kn)
  have "?walk ?s2 (base @ ''2'') 3 = Some ?s3"
    by (subst unfold) (simp add: nxt [OF k2])
  then have "?walk ?s1 (base @ ''1'') 2 = Some ?s3"
    by (subst unfold) (simp add: nxt [OF k1])
  then have "?walk st base 1 = Some ?s3"
    by (subst unfold) (simp add: nxt [OF known])
  moreover have "archive_fetches ?s3 = archive_fetches st @ [base, base @ ''1'', base @ ''2'']"
    by (simp add: fe)
  ultimately show "\<exists>st'. gen_article_urls_from_archive_page_url_including_subpages env
       (process_url env) st base = Some st' \<and>
       archive_fetches st' = archive_fetches st @ [base, base @ ''1'', base @ ''2'']"
    by (simp add: gen_article_urls_from_archive_page_url_including_subpages_def minp)
qed

theorem next_page_url_by_pagenum_witness:
  "crawler_extract_next_page_url paged_site fresh ''P1'' ''P'' [''x''] 2 (Some 3) False True 0
     = Some ''P2'' \<and>
   crawler_extract_next_page_url paged_site fresh ''P2'' ''P'' [''x''] 3 (Some 3) False True 0
     = None \<and>
   (\<exists>st'. gen_article_urls_from_archive_page_url_including_subpages paged_site
            (process_url paged_site) fresh ''P'' = Some st' \<and>
          archive_fetches st' = [''P'', ''P1'', ''P2''])"
proof -
  have fin: "finite (known_article_urls fresh)" "known_article_urls fresh = {}"
    by (simp_all add: fresh_def)
  have set: "\<not> next_url_by_regex (settings paged_site)"
    "next_url_by_pagenum (settings paged_site)"
    "min_pagenum (settings paged_site) = 1" "max_pagenum (settings paged_site) = Some 3"
    by (simp_all add: paged_site_def site_settings_def)
  have pages: "\<forall>w u. \<exists>h w'. archive_download_url paged_site w u = (Some h, w') \<and>
      extract_article_urls_from_page paged_site h (settings paged_site) \<noteq> []"
    by (simp add: paged_site_def)
  from next_page_url_by_pagenum
         [where use_regex = False and use_pagenum = True and st = fresh and env = paged_site
            and html = "''P1''" and base = "''P''" and arts = "[''x'']" and page_num = 2
            and maxp = "Some 3" and thr = 0]
       next_page_url_by_pagenum
         [where use_regex = False and use_pagenum = True and st = fresh and env = paged_site
            and html = "''P2''" and base = "''P''" and arts = "[''x'']" and page_num = 3
            and maxp = "Some 3" and thr = 0]
       fin set pages
  show ?thesis by (simp add: fresh_def)
qed

section \<open>The archive URLs of date mode\<close>




section \<open>Admission of new URLs\<close>

text \<open>
  C1, as the code has it. An extracted link is added to \<open>new_urls\<close> if and only if it is
  in none of the five sets when it is checked; in particular a URL that is then a good
  archive URL is not added. The known article URLs never change and \<open>new_urls\<close> never
  holds one of them: each operation of the crawler keeps this, and so does the whole run.
  A URL that was admitted stays in \<open>new_urls\<close> while the archive is walked, since
  \<open>process_urls\<close> only adds to \<open>new_urls\<close> and the walk does not touch it, also when the
  URL enters the good archive URLs meanwhile. The check at the start of
  \<open>download_gathered_new_urls\<close> keeps exactly the URLs that are in none of the five sets.
  From then on \<open>new_urls\<close> holds no archive URL and no known article URL: the rounds of
  the loop leave these three sets alone and keep \<open>new_urls\<close> apart from them.
\<close>

theorem new_urls_admission:
  "new_urls (admit_new st e) =
     (if e \<notin> good_article_urls st \<and> e \<notin> problematic_article_urls st \<and>
         e \<notin> good_urls st \<and> e \<notin> problematic_urls st \<and> e \<notin> known_article_urls st
      then insert e (new_urls st) else new_urls st) \<and>
   (new_urls st \<inter> known_article_urls st = {} \<longrightarrow>
      new_urls (process_url env st u) \<inter> known_article_urls (process_url env st u) = {} \<and>
      new_urls (fst (archive_page_step env base st u n)) \<inter>
        known_article_urls (fst (archive_page_step env base st u n)) = {} \<and>
      new_urls (take_new_urls env st) \<inter> known_article_urls (take_new_urls env st) = {} \<and>
      new_urls (recheck_new_urls st) \<inter> known_article_urls (recheck_new_urls st) = {}) \<and>
   (\<forall>st'. new_urls st \<inter> known_article_urls st = {} \<longrightarrow>
      url_iterator env (process_url env) st = Some (Inr st') \<or>
      download_and_extract_all_articles env st = Some (Inr st') \<longrightarrow>
      known_article_urls st' = known_article_urls st \<and>
      new_urls st' \<inter> known_article_urls st' = {}) \<and>
   (\<forall>v \<in> new_urls (recheck_new_urls st). unclassified (recheck_new_urls st) v) \<and>
   new_urls st \<subseteq> new_urls (process_url env st u) \<and>
   new_urls (fst (archive_page_step env base st u n)) = new_urls st \<and>
   (\<forall>st'. url_iterator env (process_url env) st = Some (Inr st') \<longrightarrow>
      new_urls st \<subseteq> new_urls st') \<and>
   new_urls (recheck_new_urls st) =
     {v \<in> new_urls st.
        v \<notin> good_article_urls st \<and> v \<notin> problematic_article_urls st \<and>
        v \<notin> good_urls st \<and> v \<notin> problematic_urls st \<and> v \<notin> known_article_urls st} \<and>
   new_urls (recheck_new_urls st) \<inter>
     (good_urls st \<union> problematic_urls st \<union> known_article_urls st) = {} \<and>
   (new_urls st \<inter> (good_urls st \<union> problematic_urls st \<union> known_article_urls st) = {} \<longrightarrow>
      new_urls (process_url env st u) \<inter>
        (good_urls st \<union> problematic_urls st \<union> known_article_urls st) = {} \<and>
      new_urls (take_new_urls env st) \<inter>
        (good_urls st \<union> problematic_urls st \<union> known_article_urls st) = {}) \<and>
   good_urls (process_url env st u) = good_urls st \<and>
   problematic_urls (process_url env st u) = problematic_urls st \<and>
   known_article_urls (process_url env st u) = known_article_urls st \<and>
   good_urls (take_new_urls env st) = good_urls st \<and>
   problematic_urls (take_new_urls env st) = problematic_urls st \<and>
   known_article_urls (take_new_urls env st) = known_article_urls st"
proof -
  let ?K = "known_article_urls st"
  have 1: "new_urls (admit_new st e) =
     (if e \<notin> good_article_urls st \<and> e \<notin> problematic_article_urls st \<and>
         e \<notin> good_urls st \<and> e \<notin> problematic_urls st \<and> e \<notin> known_article_urls st
      then insert e (new_urls st) else new_urls st)"
    by (simp add: admit_new_def)
  have 2: "new_urls st \<inter> known_article_urls st = {} \<longrightarrow>
      new_urls (process_url env st u) \<inter> known_article_urls (process_url env st u) = {} \<and>
      new_urls (fst (archive_page_step env base st u n)) \<inter>
        known_article_urls (fst (archive_page_step env base st u n)) = {} \<and>
      new_urls (take_new_urls env st) \<inter> known_article_urls (take_new_urls env st) = {} \<and>
      new_urls (recheck_new_urls st) \<inter> known_article_urls (recheck_new_urls st) = {}"
  proof
    assume "new_urls st \<inter> known_article_urls st = {}"
    then have P: "new_apart_from_known ?K st" by (simp add: new_apart_from_known_def)
    from new_apart_process_url [OF P, of env u] new_apart_step [OF P, of env base u n]
      new_apart_take [OF P, of env] new_apart_recheck [OF P]
    show "new_urls (process_url env st u) \<inter> known_article_urls (process_url env st u) = {} \<and>
      new_urls (fst (archive_page_step env base st u n)) \<inter>
        known_article_urls (fst (archive_page_step env base st u n)) = {} \<and>
      new_urls (take_new_urls env st) \<inter> known_article_urls (take_new_urls env st) = {} \<and>
      new_urls (recheck_new_urls st) \<inter> known_article_urls (recheck_new_urls st) = {}"
      by (simp add: new_apart_from_known_def)
  qed
  have 3: "\<forall>st'. new_urls st \<inter> known_article_urls st = {} \<longrightarrow>
      url_iterator env (process_url env) st = Some (Inr st') \<or>
      download_and_extract_all_articles env st = Some (Inr st') \<longrightarrow>
      known_article_urls st' = known_article_urls st \<and>
      new_urls st' \<inter> known_article_urls st' = {}"
  proof (intro allI impI)
    fix st'
    assume P0: "new_urls st \<inter> known_article_urls st = {}"
      and run: "url_iterator env (process_url env) st = Some (Inr st') \<or>
        download_and_extract_all_articles env st = Some (Inr st')"
    from P0 have P: "new_apart_from_known ?K st" by (simp add: new_apart_from_known_def)
    from run have "new_apart_from_known ?K st'"
    proof
      assume "url_iterator env (process_url env) st = Some (Inr st')"
      then have "for_archive_page_urls env (process_url env) st
                   (archive_page_urls (settings env)) = Some st'"
        by (auto simp: url_iterator_def Let_def split: if_splits)
      then show ?thesis using P
        by (rule for_archive_page_urls_invariant) (simp_all add: new_apart_step
            new_apart_process_url)
    next
      assume "download_and_extract_all_articles env st = Some (Inr st')"
      then show ?thesis using P
        by (rule download_and_extract_all_articles_invariant)
          (simp_all add: new_apart_step new_apart_process_url new_apart_take
            new_apart_recheck)
    qed
    then show "known_article_urls st' = known_article_urls st \<and>
      new_urls st' \<inter> known_article_urls st' = {}"
      by (simp add: new_apart_from_known_def)
  qed
  have 4: "\<forall>v \<in> new_urls (recheck_new_urls st). unclassified (recheck_new_urls st) v"
    by (simp add: new_urls_recheck unclassified_def)
  have 5: "new_urls st \<subseteq> new_urls (process_url env st u)"
    by (rule new_urls_mono_process_url)
  have 6: "new_urls (fst (archive_page_step env base st u n)) = new_urls st"
    by simp
  have 7: "\<forall>st'. url_iterator env (process_url env) st = Some (Inr st') \<longrightarrow>
      new_urls st \<subseteq> new_urls st'"
    using new_urls_mono_url_iterator by blast
  have 8: "new_urls (recheck_new_urls st) =
     {v \<in> new_urls st.
        v \<notin> good_article_urls st \<and> v \<notin> problematic_article_urls st \<and>
        v \<notin> good_urls st \<and> v \<notin> problematic_urls st \<and> v \<notin> known_article_urls st}"
    by (simp add: new_urls_recheck unclassified_def)
  have 9: "new_urls (recheck_new_urls st) \<inter>
     (good_urls st \<union> problematic_urls st \<union> known_article_urls st) = {}"
    by (auto simp: new_urls_recheck unclassified_def)
  have 10: "new_urls st \<inter> (good_urls st \<union> problematic_urls st \<union> known_article_urls st) = {} \<longrightarrow>
      new_urls (process_url env st u) \<inter>
        (good_urls st \<union> problematic_urls st \<union> known_article_urls st) = {} \<and>
      new_urls (take_new_urls env st) \<inter>
        (good_urls st \<union> problematic_urls st \<union> known_article_urls st) = {}"
    using new_apart_from_archive_process_url [of st env u]
    by (simp add: new_apart_from_archive_def)
  have 11: "good_urls (process_url env st u) = good_urls st \<and>
   problematic_urls (process_url env st u) = problematic_urls st \<and>
   known_article_urls (process_url env st u) = known_article_urls st \<and>
   good_urls (take_new_urls env st) = good_urls st \<and>
   problematic_urls (take_new_urls env st) = problematic_urls st \<and>
   known_article_urls (take_new_urls env st) = known_article_urls st"
    by simp
  show ?thesis
    apply (intro conjI)
    using 1 apply assumption
    using 2 apply assumption
    using 3 apply assumption
    using 4 apply assumption
    using 5 apply assumption
    using 6 apply assumption
    using 7 apply assumption
    using 8 apply assumption
    using 9 apply assumption
    using 10 apply assumption
    using 11 apply simp_all
    done
qed

theorem new_urls_admission_witness:
  "new_urls (process_url site (fresh\<lparr>known_article_urls := {''a''}\<rparr>) ''x'')
     \<inter> {''a''} = {} \<and>
   new_urls (admit_new (fresh\<lparr>known_article_urls := {''a''}\<rparr>) ''a'') = {} \<and>
   new_urls (admit_new (fresh\<lparr>known_article_urls := {''a''}\<rparr>) ''b'') = {''b''} \<and>
   new_urls site_after_archive \<inter> known_article_urls site_after_archive = {} \<and>
   new_urls fresh \<subseteq> new_urls site_after_archive \<and>
   new_urls (recheck_new_urls site_after_archive) = {''a'', ''b''} \<and>
   new_urls (process_url site (recheck_new_urls site_after_archive) ''a'') \<inter> {''A'', ''B''}
     = {}"
proof -
  let ?st = "fresh\<lparr>known_article_urls := {''a''}\<rparr>"
  let ?sr = "recheck_new_urls site_after_archive"
  have a: "new_urls ?st \<inter> known_article_urls ?st = {}"
    and b: "new_urls fresh \<inter> known_article_urls fresh = {}"
    by (simp_all add: fresh_def)
  note A = new_urls_admission [of ?st "''a''" site "''x''" "''A''" 1]
  note B = new_urls_admission [of ?st "''b''" site "''x''" "''A''" 1]
  note C = new_urls_admission [of fresh "''b''" site "''x''" "''A''" 1]
  note D = new_urls_admission [of site_after_archive "''b''" site "''x''" "''A''" 1]
  note E = new_urls_admission [of ?sr "''b''" site "''a''" "''A''" 1]
  note c2 = conjunct2
  from A [THEN c2, THEN conjunct1] a
  have 1: "new_urls (process_url site ?st ''x'') \<inter> {''a''} = {}"
    by simp
  from A [THEN conjunct1] have 2: "new_urls (admit_new ?st ''a'') = {}"
    by (simp add: fresh_def)
  from B [THEN conjunct1] have 3: "new_urls (admit_new ?st ''b'') = {''b''}"
    by (simp add: fresh_def)
  from C [THEN c2, THEN c2, THEN conjunct1] b site_archive_run
  have 4: "new_urls site_after_archive \<inter> known_article_urls site_after_archive = {}"
    by blast
  from C [THEN c2, THEN c2, THEN c2, THEN c2, THEN c2, THEN c2, THEN conjunct1]
    site_archive_run
  have 5: "new_urls fresh \<subseteq> new_urls site_after_archive"
    by blast
  from D [THEN c2, THEN c2, THEN c2, THEN c2, THEN c2, THEN c2, THEN c2, THEN conjunct1]
  have 6: "new_urls ?sr = {''a'', ''b''}"
    by (auto simp: site_after_archive_def)
  have h: "new_urls ?sr \<inter> (good_urls ?sr \<union> problematic_urls ?sr \<union> known_article_urls ?sr)
             = {}"
    using D [THEN c2, THEN c2, THEN c2, THEN c2, THEN c2, THEN c2, THEN c2, THEN c2,
        THEN conjunct1]
    by simp
  from E [THEN c2, THEN c2, THEN c2, THEN c2, THEN c2, THEN c2, THEN c2, THEN c2,
        THEN c2, THEN conjunct1, THEN mp, OF h, THEN conjunct1]
  have 7: "new_urls (process_url site ?sr ''a'') \<inter> {''A'', ''B''} = {}"
    by (simp add: site_after_archive_def insert_commute)
  from 1 2 3 4 5 6 7 show ?thesis by blast
qed

text \<open>
  As stated, C1 fails for the good archive URLs: on the example site the article \<open>x\<close>,
  listed on archive page \<open>A\<close>, links to the next archive page \<open>B\<close> before \<open>B\<close> is
  downloaded. When the archive has been walked, \<open>B\<close> is a good archive URL and is in
  \<open>new_urls\<close>.
\<close>

theorem new_urls_admission_counterexample:
  "url_iterator site (process_url site) fresh = Some (Inr site_after_archive) \<and>
   ''B'' \<in> good_urls site_after_archive \<and> ''B'' \<in> new_urls site_after_archive"
  by (simp add: site_archive_run) (simp add: site_after_archive_def)

section \<open>Good and problematic sets\<close>

text \<open>
  C8, as the code has it. For the articles the two sets stay disjoint whatever the
  collaborators do: lines 189-193 skip a URL that is in either set, so every operation,
  and the whole run, keeps \<open>good_article_urls\<close> and \<open>problematic_article_urls\<close> apart. The
  archive walk has no such check. \<open>good_urls\<close> and \<open>problematic_urls\<close> stay disjoint when a
  page URL that is in neither set is downloaded, hence in every run that downloads no
  archive page URL twice, and in every run with a downloader whose success depends on the
  URL alone.
\<close>

theorem good_and_problematic_urls:
  "(good_article_urls st \<inter> problematic_article_urls st = {} \<longrightarrow>
      good_article_urls (process_url env st u) \<inter>
        problematic_article_urls (process_url env st u) = {} \<and>
      good_article_urls (fst (archive_page_step env base st u n)) \<inter>
        problematic_article_urls (fst (archive_page_step env base st u n)) = {} \<and>
      good_article_urls (take_new_urls env st) \<inter>
        problematic_article_urls (take_new_urls env st) = {} \<and>
      good_article_urls (recheck_new_urls st) \<inter>
        problematic_article_urls (recheck_new_urls st) = {} \<and>
      (\<forall>st'. download_and_extract_all_articles env st = Some (Inr st') \<longrightarrow>
         good_article_urls st' \<inter> problematic_article_urls st' = {})) \<and>
   (good_urls st \<inter> problematic_urls st = {} \<longrightarrow>
      good_urls (process_url env st u) \<inter> problematic_urls (process_url env st u) = {} \<and>
      good_urls (take_new_urls env st) \<inter> problematic_urls (take_new_urls env st) = {} \<and>
      good_urls (recheck_new_urls st) \<inter> problematic_urls (recheck_new_urls st) = {} \<and>
      (u \<notin> good_urls st \<and> u \<notin> problematic_urls st \<longrightarrow>
         good_urls (fst (archive_page_step env base st u n)) \<inter>
           problematic_urls (fst (archive_page_step env base st u n)) = {}) \<and>
      (\<forall>st'. good_urls st \<union> problematic_urls st \<subseteq> set (archive_fetches st) \<longrightarrow>
         download_and_extract_all_articles env st = Some (Inr st') \<longrightarrow>
         distinct (archive_fetches st') \<longrightarrow>
         good_urls st' \<inter> problematic_urls st' = {}) \<and>
      (\<forall>st' ok. (\<forall>w v. (fst (archive_download_url env w v) \<noteq> None) = ok v) \<longrightarrow>
         good_urls st \<subseteq> Collect ok \<longrightarrow> problematic_urls st \<inter> Collect ok = {} \<longrightarrow>
         download_and_extract_all_articles env st = Some (Inr st') \<longrightarrow>
         good_urls st' \<inter> problematic_urls st' = {}))"
proof (intro conjI impI allI)
  assume "good_article_urls st \<inter> problematic_article_urls st = {}"
  then show "good_article_urls (process_url env st u) \<inter>
        problematic_article_urls (process_url env st u) = {}"
    by (rule article_sets_process_url)
next
  assume "good_article_urls st \<inter> problematic_article_urls st = {}"
  then show "good_article_urls (fst (archive_page_step env base st u n)) \<inter>
        problematic_article_urls (fst (archive_page_step env base st u n)) = {}"
    by simp
next
  assume "good_article_urls st \<inter> problematic_article_urls st = {}"
  then show "good_article_urls (take_new_urls env st) \<inter>
        problematic_article_urls (take_new_urls env st) = {}"
    by simp
next
  assume "good_article_urls st \<inter> problematic_article_urls st = {}"
  then show "good_article_urls (recheck_new_urls st) \<inter>
        problematic_article_urls (recheck_new_urls st) = {}"
    by simp
next
  fix st'
  assume P: "good_article_urls st \<inter> problematic_article_urls st = {}"
    and run: "download_and_extract_all_articles env st = Some (Inr st')"
  from run P show "good_article_urls st' \<inter> problematic_article_urls st' = {}"
    by (rule download_and_extract_all_articles_invariant)
      (simp_all add: article_sets_process_url)
next
  assume "good_urls st \<inter> problematic_urls st = {}"
  then show "good_urls (process_url env st u) \<inter> problematic_urls (process_url env st u) = {}"
    by simp
next
  assume "good_urls st \<inter> problematic_urls st = {}"
  then show "good_urls (take_new_urls env st) \<inter> problematic_urls (take_new_urls env st) = {}"
    by simp
next
  assume "good_urls st \<inter> problematic_urls st = {}"
  then show "good_urls (recheck_new_urls st) \<inter> problematic_urls (recheck_new_urls st) = {}"
    by simp
next
  assume "good_urls st \<inter> problematic_urls st = {}"
    and "u \<notin> good_urls st \<and> u \<notin> problematic_urls st"
  then show "good_urls (fst (archive_page_step env base st u n)) \<inter>
           problematic_urls (fst (archive_page_step env base st u n)) = {}"
    by (simp add: archive_step_new_url)
next
  fix st'
  assume "good_urls st \<inter> problematic_urls st = {}"
    and "good_urls st \<union> problematic_urls st \<subseteq> set (archive_fetches st)"
    and run: "download_and_extract_all_articles env st = Some (Inr st')"
    and dist: "distinct (archive_fetches st')"
  then have P: "archive_sets_fetched st" by (simp add: archive_sets_fetched_def)
  from run P have "archive_sets_fetched st'"
    by (rule download_and_extract_all_articles_invariant)
      (simp_all add: archive_sets_fetched_step archive_sets_fetched_process_url
        archive_sets_fetched_take archive_sets_fetched_recheck)
  with dist show "good_urls st' \<inter> problematic_urls st' = {}"
    by (simp add: archive_sets_fetched_def)
next
  fix st' ok
  assume det: "\<forall>w v. (fst (archive_download_url env w v) \<noteq> None) = ok v"
    and "good_urls st \<subseteq> Collect ok" "problematic_urls st \<inter> Collect ok = {}"
    and run: "download_and_extract_all_articles env st = Some (Inr st')"
  then have P: "archive_sets_by ok st" by (simp add: archive_sets_by_def)
  from run P have "archive_sets_by ok st'"
    by (rule download_and_extract_all_articles_invariant)
      (simp_all add: archive_sets_by_step [OF det] archive_sets_by_others)
  then show "good_urls st' \<inter> problematic_urls st' = {}"
    by (auto simp: archive_sets_by_def)
qed

theorem good_and_problematic_urls_witness:
  "good_article_urls site_finished \<inter> problematic_article_urls site_finished = {} \<and>
   good_urls site_finished \<inter> problematic_urls site_finished = {} \<and>
   distinct (archive_fetches site_finished) \<and>
   good_article_urls (process_url site fresh ''q'') \<inter>
     problematic_article_urls (process_url site fresh ''q'') = {} \<and>
   good_urls (fst (archive_page_step site ''A'' fresh ''A'' 1)) \<inter>
     problematic_urls (fst (archive_page_step site ''A'' fresh ''A'' 1)) = {}"
proof -
  note T = good_and_problematic_urls [of fresh site "''q''" "''A''" 1]
  note U = good_and_problematic_urls [of fresh site "''A''" "''A''" 1]
  have a: "good_article_urls fresh \<inter> problematic_article_urls fresh = {}"
    and b: "good_urls fresh \<inter> problematic_urls fresh = {}"
    and c: "good_urls fresh \<union> problematic_urls fresh \<subseteq> set (archive_fetches fresh)"
    and d: "''A'' \<notin> good_urls fresh \<and> ''A'' \<notin> problematic_urls fresh"
    by (simp_all add: fresh_def)
  have e: "distinct (archive_fetches site_finished)"
    by (simp add: site_finished_def)
  have f: "\<forall>w v. (fst (archive_download_url site w v) \<noteq> None) = (v = ''A'' \<or> v = ''B'')"
    by (simp add: site_def)
  note V = T [THEN conjunct2, THEN mp, OF b, THEN conjunct2, THEN conjunct2, THEN conjunct2,
      THEN conjunct2, THEN conjunct2, THEN spec, THEN spec, THEN mp, OF f]
  have g: "good_urls fresh \<subseteq> Collect (\<lambda>v. v = ''A'' \<or> v = ''B'')"
    "problematic_urls fresh \<inter> Collect (\<lambda>v. v = ''A'' \<or> v = ''B'') = {}"
    by (simp_all add: fresh_def)
  from T a site_run_finished
  have 1: "good_article_urls site_finished \<inter> problematic_article_urls site_finished = {}"
    by simp
  from T b c e site_run_finished
  have 2: "good_urls site_finished \<inter> problematic_urls site_finished = {}"
    by simp
  from V g site_run_finished
  have 5: "good_urls site_finished \<inter> problematic_urls site_finished = {}"
    by simp
  from T a have 3: "good_article_urls (process_url site fresh ''q'') \<inter>
     problematic_article_urls (process_url site fresh ''q'') = {}"
    by simp
  from U b d have 4: "good_urls (fst (archive_page_step site ''A'' fresh ''A'' 1)) \<inter>
     problematic_urls (fst (archive_page_step site ''A'' fresh ''A'' 1)) = {}"
    by simp
  from 1 2 5 3 4 e show ?thesis by blast
qed

text \<open>
  As stated, C8 fails for the archive: on the site whose page \<open>A\<close> names itself as the
  next page, \<open>A\<close> is downloaded twice; the first download succeeds and the second fails,
  and the run ends with \<open>A\<close> in \<open>good_urls\<close> and in \<open>problematic_urls\<close>.
\<close>

theorem good_and_problematic_urls_counterexample:
  "download_and_extract_all_articles flaky_site fresh = Some (Inr
     \<lparr>good_urls = {''A''}, problematic_urls = {''A''}, known_article_urls = {},
      good_article_urls = {}, problematic_article_urls = {}, new_urls = {},
      world = 2, archive_fetches = [''A'', ''A''], article_fetches = [], corpus = [],
      logged = []\<rparr>)"
  by (simp add: flaky_site_def site_settings_def fresh_def run_defs gen_article_urls.simps
      while_new_urls.simps eval_simps del: Set.filter_eq)

section \<open>The loop over the new URLs\<close>

text \<open>
  C2, as the code has it. \<open>download_gathered_new_urls\<close> filters \<open>new_urls\<close> against the
  five sets once, before the loop. Every round of the loop that starts with a non-empty
  \<open>new_urls\<close> logs these URLs, clears \<open>new_urls\<close> and hands the whole snapshot to
  \<open>process_urls\<close>, unfiltered; the loop returns only when \<open>new_urls\<close> is empty at the start
  of a round. What is gathered during a round holds no archive URL and no known article
  URL, and \<open>process_urls\<close> skips a URL that has become a good or problematic article URL
  without downloading it.
\<close>

theorem download_gathered_new_urls_rounds:
  "download_gathered_new_urls env st = while_new_urls env (recheck_new_urls st) \<and>
   new_urls (recheck_new_urls st) = {u \<in> new_urls st. unclassified st u} \<and>
   (new_urls st \<noteq> {} \<longrightarrow>
      while_new_urls env st =
        while_new_urls env
          (process_urls env (take_new_urls env st) (set_order env (new_urls st)))) \<and>
   (new_urls st = {} \<longrightarrow> while_new_urls env st = Some st) \<and>
   (\<forall>st'. while_new_urls env st = Some st' \<or> download_gathered_new_urls env st = Some st'
      \<longrightarrow> new_urls st' = {}) \<and>
   new_urls (process_urls env (take_new_urls env st) xs) \<inter>
     (good_urls st \<union> problematic_urls st \<union> known_article_urls st) = {} \<and>
   (u \<in> good_article_urls st \<or> u \<in> problematic_article_urls st \<longrightarrow>
      process_url env st u = st\<lparr>logged := logged st @ [(WARNING, u, AlreadyDownloaded)]\<rparr>)"
proof -
  have 1: "download_gathered_new_urls env st = while_new_urls env (recheck_new_urls st)"
    by (simp add: download_gathered_new_urls_def)
  have 3: "new_urls st \<noteq> {} \<longrightarrow>
      while_new_urls env st =
        while_new_urls env
          (process_urls env (take_new_urls env st) (set_order env (new_urls st)))"
    by (subst while_new_urls.simps) simp
  have 4: "new_urls st = {} \<longrightarrow> while_new_urls env st = Some st"
    by (subst while_new_urls.simps) simp
  have 5: "\<forall>st'. while_new_urls env st = Some st' \<or>
      download_gathered_new_urls env st = Some st' \<longrightarrow> new_urls st' = {}"
    by (auto simp: download_gathered_new_urls_def dest: while_new_urls_ends_empty)
  have 6: "new_urls (process_urls env (take_new_urls env st) xs) \<inter>
     (good_urls st \<union> problematic_urls st \<union> known_article_urls st) = {}"
    using new_apart_from_archive_round [of env st xs]
    by (simp add: new_apart_from_archive_def process_urls_def)
  have 7: "u \<in> good_article_urls st \<or> u \<in> problematic_article_urls st \<longrightarrow>
      process_url env st u = st\<lparr>logged := logged st @ [(WARNING, u, AlreadyDownloaded)]\<rparr>"
    by (simp add: process_url_duplicate)
  from 1 new_urls_recheck [of st] 3 4 5 6 7 show ?thesis by blast
qed

theorem download_gathered_new_urls_rounds_witness:
  "new_urls (recheck_new_urls site_after_archive) = {''a'', ''b''} \<and>
   while_new_urls site site_finished = Some site_finished \<and>
   download_gathered_new_urls site site_after_archive = Some site_finished \<and>
   new_urls site_finished = {} \<and>
   process_url site site_finished ''b'' =
     site_finished\<lparr>logged := logged site_finished @ [(WARNING, ''b'', AlreadyDownloaded)]\<rparr>"
proof -
  note T = download_gathered_new_urls_rounds [of site site_after_archive "[]" "''b''"]
  note U = download_gathered_new_urls_rounds [of site site_finished "[]" "''b''"]
  note T2 = T [THEN conjunct2, THEN conjunct1]
  note T5 = T [THEN conjunct2, THEN conjunct2, THEN conjunct2, THEN conjunct2, THEN conjunct1,
      THEN spec, THEN mp]
  note U4 = U [THEN conjunct2, THEN conjunct2, THEN conjunct2, THEN conjunct1, THEN mp]
  note U7 = U [THEN conjunct2, THEN conjunct2, THEN conjunct2, THEN conjunct2, THEN conjunct2,
      THEN conjunct2, THEN mp]
  have "{u \<in> new_urls site_after_archive. unclassified site_after_archive u} = {''a'', ''b''}"
    by (auto simp: site_after_archive_def unclassified_def)
  with T2 have 1: "new_urls (recheck_new_urls site_after_archive) = {''a'', ''b''}"
    by simp
  have e: "new_urls site_finished = {}"
    and g: "''b'' \<in> good_article_urls site_finished \<or>
            ''b'' \<in> problematic_article_urls site_finished"
    by (simp_all add: site_finished_def)
  have 2: "while_new_urls site site_finished = Some site_finished"
    using e by (rule U4)
  have 4: "new_urls site_finished = {}"
    by (rule T5) (rule disjI2, rule site_drain)
  have 5: "process_url site site_finished ''b'' =
     site_finished\<lparr>logged := logged site_finished @ [(WARNING, ''b'', AlreadyDownloaded)]\<rparr>"
    using g by (rule U7)
  from 1 2 site_drain 4 5 show ?thesis by blast
qed

text \<open>
  As stated, C2 fails: on the example site the first round processes \<open>a\<close> and \<open>b\<close>; \<open>a\<close>
  links to \<open>b\<close> before \<open>b\<close> is downloaded in the same round, so the second round starts
  with \<open>b\<close> in \<open>new_urls\<close> and in the good article URLs. The code logs \<open>b\<close> as a true new
  URL again and calls \<open>process_urls\<close> on it, which logs the duplicate; a loop that filtered
  each snapshot would do neither.
\<close>

theorem download_gathered_new_urls_rounds_counterexample:
  "download_gathered_new_urls site site_after_archive = Some site_finished \<and>
   logged site_finished =
     [(WARNING, ''x'', DateNotInInterval None), (ERROR, ''a'', TrueNewUrl),
      (ERROR, ''b'', TrueNewUrl), (ERROR, ''b'', TrueNewUrl),
      (WARNING, ''b'', AlreadyDownloaded)] \<and>
   drain_as_specified site site_after_archive =
     Some (site_finished\<lparr>logged := [(WARNING, ''x'', DateNotInInterval None),
                                     (ERROR, ''a'', TrueNewUrl), (ERROR, ''b'', TrueNewUrl)]\<rparr>) \<and>
   download_gathered_new_urls site site_after_archive \<noteq>
     drain_as_specified site site_after_archive"
  by (simp add: site_drain site_drain_as_specified) (simp add: site_finished_def)

section \<open>The walk over the pages of one base URL\<close>

text \<open>
  C4, as the code has it, whatever the downloader and the extractors do. The walk ends
  in a state exactly when some number of rounds of its loop ends in that state with no
  next page.

  With \<open>next_url_by_regex\<close> off, the pages downloaded up to any round of the walk,
  whether the walk ends or not, are the first of the base URL and the base URL followed
  by \<open>min_pagenum\<close>, \<open>min_pagenum + 1\<close>, ..., in this order; these URLs differ from one
  another, so no page is downloaded twice. The walk ends when \<open>max_pagenum\<close> is set, after
  at most \<open>max_pagenum - min_pagenum\<close> downloads beyond the base URL, and it ends on a
  finite site, that is when from some page number on no page that can be downloaded
  lists an article.

  With \<open>next_url_by_regex\<close> on, the next page of a downloaded page is the link the
  extractor returns for it, whatever the sets of good and problematic URLs hold. When
  the next-page links never lead back, that is when some rank of the URLs gets smaller
  along every next-page link of a page that can be downloaded, the walk ends, after at
  most as many downloads beyond the base URL as the rank of the base URL, and up to any
  round no page is downloaded twice.
\<close>

theorem walk_of_archive_pages:
  fixes rank :: "url \<Rightarrow> nat"
  shows
  "(\<forall>st'. gen_article_urls_from_archive_page_url_including_subpages env (process_url env)
             st base = Some st' \<longleftrightarrow>
          (\<exists>k m. gen_article_urls_rounds k env (process_url env) base st (Some base)
                   (min_pagenum (settings env)) = (st', None, m))) \<and>
   (\<not> next_url_by_regex (settings env) \<longrightarrow>
     (\<forall>k. \<exists>j\<le>k. archive_fetches
             (fst (gen_article_urls_rounds k env (process_url env) base st (Some base)
                     (min_pagenum (settings env)))) =
           archive_fetches st @
           take j (base #
             map (\<lambda>i. base @ str_int (min_pagenum (settings env) + int i)) [0 ..< k])) \<and>
     (\<forall>k. distinct (drop (length (archive_fetches st))
             (archive_fetches
                (fst (gen_article_urls_rounds k env (process_url env) base st (Some base)
                        (min_pagenum (settings env))))))) \<and>
     (\<forall>st'. gen_article_urls_from_archive_page_url_including_subpages env (process_url env)
              st base = Some st' \<longrightarrow>
        (\<exists>k. archive_fetches st' = archive_fetches st @ base #
                map (\<lambda>i. base @ str_int (min_pagenum (settings env) + int i)) [0 ..< k])) \<and>
     (\<forall>k. distinct (base #
             map (\<lambda>i. base @ str_int (min_pagenum (settings env) + int i)) [0 ..< k])) \<and>
     (\<forall>m. max_pagenum (settings env) = Some m \<longrightarrow>
        (\<exists>st' k. gen_article_urls_from_archive_page_url_including_subpages env
                    (process_url env) st base = Some st' \<and>
                 k \<le> nat (m - min_pagenum (settings env)) \<and>
                 archive_fetches st' = archive_fetches st @ base #
                   map (\<lambda>i. base @ str_int (min_pagenum (settings env) + int i)) [0 ..< k])) \<and>
     ((\<exists>N. \<forall>j\<ge>N. \<forall>w h w'. archive_download_url env w (base @ str_int j) = (Some h, w') \<longrightarrow>
           extract_article_urls_from_page env h (settings env) = []) \<longrightarrow>
        (\<exists>st'. gen_article_urls_from_archive_page_url_including_subpages env (process_url env)
                 st base = Some st'))) \<and>
   (next_url_by_regex (settings env) \<longrightarrow>
     (\<forall>s u n h w'. archive_download_url env (world s) u = (Some h, w') \<longrightarrow>
        snd (snd (archive_page_step env base s u n)) =
          extract_next_page_url env h (settings env)) \<and>
     ((\<forall>w u h w' v. archive_download_url env w u = (Some h, w') \<and>
          extract_next_page_url env h (settings env) = Some v \<longrightarrow> rank v < rank u) \<longrightarrow>
        (\<exists>st' us. gen_article_urls_from_archive_page_url_including_subpages env
                     (process_url env) st base = Some st' \<and>
                  archive_fetches st' = archive_fetches st @ base # us \<and>
                  distinct (base # us) \<and> length us \<le> rank base \<and>
                  (\<forall>v\<in>set us. rank v < rank base)) \<and>
        (\<forall>k. distinct (drop (length (archive_fetches st))
                (archive_fetches
                   (fst (gen_article_urls_rounds k env (process_url env) base st (Some base)
                           (min_pagenum (settings env)))))))))"
proof (intro conjI)
  show "\<forall>st'. gen_article_urls_from_archive_page_url_including_subpages env (process_url env)
             st base = Some st' \<longleftrightarrow>
          (\<exists>k m. gen_article_urls_rounds k env (process_url env) base st (Some base)
                   (min_pagenum (settings env)) = (st', None, m))"
    unfolding gen_article_urls_from_archive_page_url_including_subpages_def
    by (intro allI walk_iff_rounds)
next
  show "\<not> next_url_by_regex (settings env) \<longrightarrow>
     (\<forall>k. \<exists>j\<le>k. archive_fetches
             (fst (gen_article_urls_rounds k env (process_url env) base st (Some base)
                     (min_pagenum (settings env)))) =
           archive_fetches st @
           take j (base #
             map (\<lambda>i. base @ str_int (min_pagenum (settings env) + int i)) [0 ..< k])) \<and>
     (\<forall>k. distinct (drop (length (archive_fetches st))
             (archive_fetches
                (fst (gen_article_urls_rounds k env (process_url env) base st (Some base)
                        (min_pagenum (settings env))))))) \<and>
     (\<forall>st'. gen_article_urls_from_archive_page_url_including_subpages env (process_url env)
              st base = Some st' \<longrightarrow>
        (\<exists>k. archive_fetches st' = archive_fetches st @ base #
                map (\<lambda>i. base @ str_int (min_pagenum (settings env) + int i)) [0 ..< k])) \<and>
     (\<forall>k. distinct (base #
             map (\<lambda>i. base @ str_int (min_pagenum (settings env) + int i)) [0 ..< k])) \<and>
     (\<forall>m. max_pagenum (settings env) = Some m \<longrightarrow>
        (\<exists>st' k. gen_article_urls_from_archive_page_url_including_subpages env
                    (process_url env) st base = Some st' \<and>
                 k \<le> nat (m - min_pagenum (settings env)) \<and>
                 archive_fetches st' = archive_fetches st @ base #
                   map (\<lambda>i. base @ str_int (min_pagenum (settings env) + int i)) [0 ..< k])) \<and>
     ((\<exists>N. \<forall>j\<ge>N. \<forall>w h w'. archive_download_url env w (base @ str_int j) = (Some h, w') \<longrightarrow>
           extract_article_urls_from_page env h (settings env) = []) \<longrightarrow>
        (\<exists>st'. gen_article_urls_from_archive_page_url_including_subpages env (process_url env)
                 st base = Some st'))"
  proof (intro impI conjI allI)
    fix k
    assume "\<not> next_url_by_regex (settings env)"
    then show "\<exists>j\<le>k. archive_fetches
             (fst (gen_article_urls_rounds k env (process_url env) base st (Some base)
                     (min_pagenum (settings env)))) =
           archive_fetches st @
           take j (base #
             map (\<lambda>i. base @ str_int (min_pagenum (settings env) + int i)) [0 ..< k])"
      by (rule rounds_fetches)
  next
    fix k
    assume "\<not> next_url_by_regex (settings env)"
    then show "distinct (drop (length (archive_fetches st))
             (archive_fetches
                (fst (gen_article_urls_rounds k env (process_url env) base st (Some base)
                        (min_pagenum (settings env))))))"
      by (rule rounds_fetches_distinct)
  next
    fix st'
    assume "\<not> next_url_by_regex (settings env)"
      and "gen_article_urls_from_archive_page_url_including_subpages env (process_url env)
              st base = Some st'"
    then show "\<exists>k. archive_fetches st' = archive_fetches st @ base #
                map (\<lambda>i. base @ str_int (min_pagenum (settings env) + int i)) [0 ..< k]"
      unfolding gen_article_urls_from_archive_page_url_including_subpages_def
      by (intro walk_fetches)
  next
    fix k
    show "distinct (base #
          map (\<lambda>i. base @ str_int (min_pagenum (settings env) + int i)) [0 ..< k])"
      by (rule distinct_page_urls)
  next
    fix m
    assume "\<not> next_url_by_regex (settings env)" and "max_pagenum (settings env) = Some m"
    then show "\<exists>st' k. gen_article_urls_from_archive_page_url_including_subpages env
                    (process_url env) st base = Some st' \<and>
                 k \<le> nat (m - min_pagenum (settings env)) \<and>
                 archive_fetches st' = archive_fetches st @ base #
                   map (\<lambda>i. base @ str_int (min_pagenum (settings env) + int i)) [0 ..< k]"
      unfolding gen_article_urls_from_archive_page_url_including_subpages_def
      by (rule walk_ends_below_max)
  next
    assume mode: "\<not> next_url_by_regex (settings env)"
      and fin: "\<exists>N. \<forall>j\<ge>N. \<forall>w h w'.
           archive_download_url env w (base @ str_int j) = (Some h, w') \<longrightarrow>
           extract_article_urls_from_page env h (settings env) = []"
    from fin obtain N where
      "\<forall>j\<ge>N. \<forall>w h w'. archive_download_url env w (base @ str_int j) = (Some h, w') \<longrightarrow>
           extract_article_urls_from_page env h (settings env) = []" ..
    with mode show "\<exists>st'. gen_article_urls_from_archive_page_url_including_subpages env
        (process_url env) st base = Some st'"
      unfolding gen_article_urls_from_archive_page_url_including_subpages_def
      by (rule walk_from_base_ends_on_finite_site)
  qed
next
  show "next_url_by_regex (settings env) \<longrightarrow>
     (\<forall>s u n h w'. archive_download_url env (world s) u = (Some h, w') \<longrightarrow>
        snd (snd (archive_page_step env base s u n)) =
          extract_next_page_url env h (settings env)) \<and>
     ((\<forall>w u h w' v. archive_download_url env w u = (Some h, w') \<and>
          extract_next_page_url env h (settings env) = Some v \<longrightarrow> rank v < rank u) \<longrightarrow>
        (\<exists>st' us. gen_article_urls_from_archive_page_url_including_subpages env
                     (process_url env) st base = Some st' \<and>
                  archive_fetches st' = archive_fetches st @ base # us \<and>
                  distinct (base # us) \<and> length us \<le> rank base \<and>
                  (\<forall>v\<in>set us. rank v < rank base)) \<and>
        (\<forall>k. distinct (drop (length (archive_fetches st))
                (archive_fetches
                   (fst (gen_article_urls_rounds k env (process_url env) base st (Some base)
                           (min_pagenum (settings env))))))))"
  proof (intro impI conjI allI)
    fix s :: "('a, 'b) crawler" and u n h w'
    assume "next_url_by_regex (settings env)"
      and "archive_download_url env (world s) u = (Some h, w')"
    then show "snd (snd (archive_page_step env base s u n)) =
          extract_next_page_url env h (settings env)"
      by (rule next_page_with_regex)
  next
    assume "next_url_by_regex (settings env)"
      and "\<forall>w u h w' v. archive_download_url env w u = (Some h, w') \<and>
          extract_next_page_url env h (settings env) = Some v \<longrightarrow> rank v < rank u"
    then show "\<exists>st' us. gen_article_urls_from_archive_page_url_including_subpages env
                     (process_url env) st base = Some st' \<and>
                  archive_fetches st' = archive_fetches st @ base # us \<and>
                  distinct (base # us) \<and> length us \<le> rank base \<and>
                  (\<forall>v\<in>set us. rank v < rank base)"
      unfolding gen_article_urls_from_archive_page_url_including_subpages_def
      by (rule walk_down_the_ranks)
  next
    fix k
    assume "next_url_by_regex (settings env)"
      and "\<forall>w u h w' v. archive_download_url env w u = (Some h, w') \<and>
          extract_next_page_url env h (settings env) = Some v \<longrightarrow> rank v < rank u"
    then show "distinct (drop (length (archive_fetches st))
                (archive_fetches
                   (fst (gen_article_urls_rounds k env (process_url env) base st (Some base)
                           (min_pagenum (settings env))))))"
      by (rule rounds_down_the_ranks_distinct)
  qed
qed

theorem walk_of_archive_pages_witness:
  "(\<exists>st' k. gen_article_urls_from_archive_page_url_including_subpages paged_site
               (process_url paged_site) fresh ''P'' = Some st' \<and> k \<le> 2 \<and>
            archive_fetches st' = ''P'' # map (\<lambda>i. ''P'' @ str_int (1 + int i)) [0 ..< k]) \<and>
   (\<exists>st'. gen_article_urls_from_archive_page_url_including_subpages endless_site
            (process_url endless_site) fresh ''P'' = Some st') \<and>
   (\<exists>st' us. gen_article_urls_from_archive_page_url_including_subpages site
            (process_url site) fresh ''A'' = Some st' \<and>
            archive_fetches st' = ''A'' # us \<and> distinct (''A'' # us) \<and> length us \<le> 1) \<and>
   snd (snd (archive_page_step site ''A'' fresh ''A'' 1)) = Some ''B'' \<and>
   distinct (archive_fetches (fst (gen_article_urls_rounds 2 paged_site (process_url paged_site)
     ''P'' fresh (Some ''P'') 1)))"
proof -
  note T = walk_of_archive_pages [of paged_site fresh "''P''",
      THEN conjunct2, THEN conjunct1, THEN mp]
  note U = walk_of_archive_pages [of endless_site fresh "''P''",
      THEN conjunct2, THEN conjunct1, THEN mp]
  note V = walk_of_archive_pages [of site fresh "''A''" "\<lambda>u. if u = ''A'' then 1 else 0",
      THEN conjunct2, THEN conjunct2, THEN mp]
  have a: "\<not> next_url_by_regex (settings paged_site)"
    and b: "max_pagenum (settings paged_site) = Some 3"
    and c: "min_pagenum (settings paged_site) = 1"
    by (simp_all add: paged_site_def site_settings_def)
  have d: "\<not> next_url_by_regex (settings endless_site)"
    by (simp add: endless_site_def paged_site_def site_settings_def)
  have "''P'' @ str_int j \<noteq> ''P''" "''P'' @ str_int j \<noteq> ''P1''" if "2 \<le> j" for j
    using that str_int_inj [of j 1] by auto
  then have e: "\<exists>N. \<forall>j\<ge>N. \<forall>w h w'.
      archive_download_url endless_site w (''P'' @ str_int j) = (Some h, w') \<longrightarrow>
      extract_article_urls_from_page endless_site h (settings endless_site) = []"
    by (intro exI [where x = 2]) (auto simp: endless_site_def paged_site_def)
  have f: "next_url_by_regex (settings site)"
    by (simp add: site_def site_settings_def)
  have g: "archive_download_url site (world fresh) ''A'' = (Some ''A'', 1)"
    by (simp add: site_def fresh_def)
  from T [OF a, THEN conjunct2, THEN conjunct2, THEN conjunct2, THEN conjunct2,
      THEN conjunct1, THEN spec, THEN mp, OF b]
  have 1: "\<exists>st' k. gen_article_urls_from_archive_page_url_including_subpages paged_site
               (process_url paged_site) fresh ''P'' = Some st' \<and> k \<le> 2 \<and>
            archive_fetches st' = ''P'' # map (\<lambda>i. ''P'' @ str_int (1 + int i)) [0 ..< k]"
    by (simp add: c fresh_def)
  from U [OF d, THEN conjunct2, THEN conjunct2, THEN conjunct2, THEN conjunct2,
      THEN conjunct2, THEN mp, OF e]
  have 2: "\<exists>st'. gen_article_urls_from_archive_page_url_including_subpages endless_site
            (process_url endless_site) fresh ''P'' = Some st'" .
  from V [OF f, THEN conjunct2, THEN mp, OF site_next_links_go_down, THEN conjunct1]
  have 3: "\<exists>st' us. gen_article_urls_from_archive_page_url_including_subpages site
            (process_url site) fresh ''A'' = Some st' \<and>
            archive_fetches st' = ''A'' # us \<and> distinct (''A'' # us) \<and> length us \<le> 1"
    by (simp add: fresh_def) blast
  from V [OF f, THEN conjunct1, THEN spec, THEN spec, THEN spec, THEN spec, THEN spec,
      THEN mp, OF g]
  have 4: "snd (snd (archive_page_step site ''A'' fresh ''A'' 1)) = Some ''B''"
    by (simp add: site_def)
  from T [OF a, THEN conjunct2, THEN conjunct1, THEN spec [where x = 2]]
  have 5: "distinct (archive_fetches (fst (gen_article_urls_rounds 2 paged_site
     (process_url paged_site) ''P'' fresh (Some ''P'') 1)))"
    by (simp add: c fresh_def)
  from 1 2 3 4 5 show ?thesis by (intro conjI)
qed

text \<open>
  As stated, C4 fails with next-page links by regex: the walk follows the link the
  extractor returns and consults neither archive set. On the page that names itself as
  the next page the walk never ends, and its first two rounds download that page twice,
  the second time when it is already marked good; and when the second download of that
  page fails, the walk ends having downloaded the same URL twice.
\<close>

theorem walk_of_archive_pages_counterexample:
  "gen_article_urls_from_archive_page_url_including_subpages cyclic_site
     (process_url cyclic_site) fresh ''A'' = None \<and>
   gen_article_urls_rounds 2 cyclic_site (process_url cyclic_site) ''A'' fresh (Some ''A'') 1 =
     (fresh\<lparr>good_urls := {''A''}, world := 2, archive_fetches := [''A'', ''A'']\<rparr>,
      Some ''A'', 3) \<and>
   gen_article_urls_from_archive_page_url_including_subpages flaky_site
     (process_url flaky_site) fresh ''A'' =
   Some (fresh\<lparr>good_urls := {''A''}, problematic_urls := {''A''}, world := 2,
           archive_fetches := [''A'', ''A'']\<rparr>)"
  by (simp add: gen_article_urls_from_archive_page_url_including_subpages_def
      cyclic_walk_diverges cyclic_rounds)
     (simp add: flaky_walk [unfolded
        gen_article_urls_from_archive_page_url_including_subpages_def])

end
